theory Spec2Isabelle
  imports Main "HOL-Library.Word"
begin

unbundle bit_operations_syntax

section \<open>The console driver of console.c\<close>

text \<open>
  The model follows console.c function by function. Integers that the C code
  declares \<^verbatim>\<open>uint\<close> and that can wrap (the four cursors of the input buffer) are
  32-bit words; a \<^verbatim>\<open>char\<close> cell is an 8-bit word, read as a signed value as the
  compiler for x86 does; a CGA cell is a 16-bit word. Character codes, the
  cursor offset \<^verbatim>\<open>pos\<close> and the byte count of \<^verbatim>\<open>consoleread\<close> are C \<^verbatim>\<open>int\<close>s that
  stay far from the 32-bit limits in every path, and are HOL integers.

  The lock (\<^verbatim>\<open>acquire\<close>, \<^verbatim>\<open>release\<close>), the inode lock and \<^verbatim>\<open>wakeup\<close> belong to
  the scheduler and are left out: the model is sequential.
\<close>

subsection \<open>Ways in which a call does not return\<close>

text \<open>
  \<^verbatim>\<open>Frozen\<close>: \<^verbatim>\<open>consputc\<close> found \<^verbatim>\<open>panicked\<close> set and spins in \<^verbatim>\<open>for(;;)\<close>.
  \<^verbatim>\<open>Panic\<close>: \<^verbatim>\<open>panic\<close> was called; it ends in \<^verbatim>\<open>for(;;)\<close> as well.
  \<^verbatim>\<open>MemFault\<close>: a \<^verbatim>\<open>memmove\<close> was asked to move bytes outside the object it
  works on, which C leaves undefined.
\<close>

datatype error = Frozen | Panic | MemFault

subsection \<open>Constants\<close>

abbreviation BACKSPACE :: int where "BACKSPACE \<equiv> 256"
abbreviation LEFT :: int where "LEFT \<equiv> 228"
abbreviation RIGHT :: int where "RIGHT \<equiv> 229"
abbreviation UP :: int where "UP \<equiv> 226"
abbreviation DOWN :: int where "DOWN \<equiv> 227"
abbreviation BUFF_SIZE :: int where "BUFF_SIZE \<equiv> 80"
abbreviation INPUT_BUF :: nat where "INPUT_BUF \<equiv> 128"

text \<open>The control codes \<^verbatim>\<open>C('P')\<close>, \<^verbatim>\<open>C('U')\<close>, \<^verbatim>\<open>C('H')\<close>, \<^verbatim>\<open>C('D')\<close>, with
  \<^verbatim>\<open>C(x) = x - '@'\<close>, and the characters the code names.\<close>

abbreviation Ctrl_P :: int where "Ctrl_P \<equiv> 16"
abbreviation Ctrl_U :: int where "Ctrl_U \<equiv> 21"
abbreviation Ctrl_H :: int where "Ctrl_H \<equiv> 8"
abbreviation Ctrl_D :: int where "Ctrl_D \<equiv> 4"
abbreviation DEL :: int where "DEL \<equiv> 127"
abbreviation NL :: int where "NL \<equiv> 10"
abbreviation CR :: int where "CR \<equiv> 13"
abbreviation PERCENT :: int where "PERCENT \<equiv> 37"

subsection \<open>The screen and the serial line\<close>

text \<open>
  \<^verbatim>\<open>panicked\<close> is the static flag. \<^verbatim>\<open>uart\<close> lists the arguments of the calls
  of \<^verbatim>\<open>uartputc\<close>, oldest first. \<^verbatim>\<open>cursor_hi\<close> and \<^verbatim>\<open>cursor_lo\<close> are registers 14
  and 15 of the CRT controller, which \<^verbatim>\<open>outb(CRTPORT, 14)\<close> and
  \<^verbatim>\<open>outb(CRTPORT, 15)\<close> select and port \<^verbatim>\<open>CRTPORT+1\<close> reads and writes. \<^verbatim>\<open>crt\<close>
  is the CGA memory as cells counted from \<^verbatim>\<open>0xb8000\<close>.
\<close>

record console =
  panicked :: bool
  uart :: "int list"
  cursor_hi :: "8 word"
  cursor_lo :: "8 word"
  crt :: "nat \<Rightarrow> 16 word"

text \<open>Lines 144 to 147: \<^verbatim>\<open>pos = inb(CRTPORT+1) << 8; pos |= inb(CRTPORT+1)\<close>.\<close>

definition get_pos :: "console \<Rightarrow> int" where
  "get_pos s = push_bit 8 (uint (cursor_hi s)) OR uint (cursor_lo s)"

text \<open>Lines 177 to 180: \<^verbatim>\<open>outb\<close> keeps the low eight bits of its argument.\<close>

definition set_pos :: "int \<Rightarrow> console \<Rightarrow> console" where
  "set_pos pos s = s\<lparr>cursor_hi := word_of_int (drop_bit 8 pos), cursor_lo := word_of_int pos\<rparr>"

text \<open>\<^verbatim>\<open>memmove\<close> and \<^verbatim>\<open>memset\<close> on CGA cells; lengths are in cells here. The
  result of \<^verbatim>\<open>memmove\<close> is a copy of the source as it was before the call, also
  where the two ranges overlap.\<close>

definition memmove_crt :: "nat \<Rightarrow> nat \<Rightarrow> nat \<Rightarrow> (nat \<Rightarrow> 16 word) \<Rightarrow> (nat \<Rightarrow> 16 word)" where
  "memmove_crt dst src n m = (\<lambda>i. if dst \<le> i \<and> i < dst + n then m (src + (i - dst)) else m i)"

definition memset_crt :: "nat \<Rightarrow> nat \<Rightarrow> (nat \<Rightarrow> 16 word) \<Rightarrow> (nat \<Rightarrow> 16 word)" where
  "memset_crt dst n m = (\<lambda>i. if dst \<le> i \<and> i < dst + n then 0 else m i)"

text \<open>
  Lines 149 to 166 of \<^verbatim>\<open>cgaputc\<close>: the change of \<^verbatim>\<open>pos\<close> and of the cells for one
  character. The lengths \<^verbatim>\<open>sizeof(crt[0])*(24*BUFF_SIZE - pos)\<close> are computed in
  \<^verbatim>\<open>size_t\<close>: where \<^verbatim>\<open>24*BUFF_SIZE - pos\<close> is negative the length wraps to nearly
  4 GB, far beyond the 32 KB of CGA memory, and the model answers \<^verbatim>\<open>MemFault\<close>.
  \<^verbatim>\<open>pos\<close> comes from two bytes and is never negative, so \<^verbatim>\<open>%\<close> is \<open>mod\<close>.
\<close>

definition cga_edit :: "int \<Rightarrow> int \<Rightarrow> (nat \<Rightarrow> 16 word) \<Rightarrow> error + (int \<times> (nat \<Rightarrow> 16 word))" where
  "cga_edit c pos m =
    (if c = NL then Inr (pos + (BUFF_SIZE - pos mod BUFF_SIZE), m)
     else if c = BACKSPACE then
       (if pos > 0 then
          (if 24 * BUFF_SIZE - (pos - 1) < 0 then Inl MemFault
           else Inr (pos - 1,
                  memmove_crt (nat (pos - 1)) (nat (pos - 1) + 1) (nat (24 * BUFF_SIZE - (pos - 1))) m))
        else Inr (pos, m))
     else if c = LEFT then (if pos > 0 then Inr (pos - 1, m) else Inr (pos, m))
     else if c = RIGHT then Inr (pos + 1, m)
     else if c = UP \<or> c = DOWN then Inr (pos, m)
     else if 24 * BUFF_SIZE - pos < 0 then Inl MemFault
     else Inr (pos + 1,
            (memmove_crt (nat pos + 1) (nat pos) (nat (24 * BUFF_SIZE - pos)) m)
              (nat pos := word_of_int ((c AND 0xff) OR 0x0700))))"

text \<open>Lines 172 to 174, the body of the scroll branch.\<close>

definition cga_scroll :: "int \<Rightarrow> (nat \<Rightarrow> 16 word) \<Rightarrow> int \<times> (nat \<Rightarrow> 16 word)" where
  "cga_scroll pos m =
    (pos - BUFF_SIZE,
     memset_crt (nat (pos - BUFF_SIZE)) (nat (24 * BUFF_SIZE - (pos - BUFF_SIZE)))
       (memmove_crt 0 (nat BUFF_SIZE) (nat (23 * BUFF_SIZE)) m))"

text \<open>Line 171, the test that guards the scroll branch.\<close>

definition scroll_due :: "int \<Rightarrow> bool" where
  "scroll_due pos = (pos div BUFF_SIZE \<ge> 24)"

definition cgaputc :: "int \<Rightarrow> console \<Rightarrow> error + console" where
  "cgaputc c s =
    (case cga_edit c (get_pos s) (crt s) of
       Inl err \<Rightarrow> Inl err
     | Inr (pos, m) \<Rightarrow>
         if pos < 0 \<or> pos > 25 * BUFF_SIZE then Inl Panic
         else if scroll_due pos then
           (case cga_scroll pos m of (pos', m') \<Rightarrow> Inr (set_pos pos' (s\<lparr>crt := m'\<rparr>)))
         else Inr (set_pos pos (s\<lparr>crt := m\<rparr>)))"

text \<open>Modelled from the spec: \<^verbatim>\<open>uartputc\<close>, the serial transport, which is not part of
  console.c. The spec gives it as \<^verbatim>\<open>emitByte(c)\<close>, a call that hands one byte to the
  transport; here the byte is appended to the log \<^verbatim>\<open>uart\<close>.\<close>

definition uartputc :: "int \<Rightarrow> console \<Rightarrow> console" where
  "uartputc c s = s\<lparr>uart := uart s @ [c]\<rparr>"

text \<open>\<^verbatim>\<open>consputc\<close>, lines 183 to 198. The three calls for a backspace are made in
  the order backspace (8), space (32), backspace (8).\<close>

definition consputc :: "int \<Rightarrow> console \<Rightarrow> error + console" where
  "consputc c s =
    (if panicked s then Inl Frozen
     else cgaputc c
       (if c = BACKSPACE then uartputc 8 (uartputc 32 (uartputc 8 s))
        else if c \<noteq> UP \<and> c \<noteq> DOWN \<and> c \<noteq> LEFT \<and> c \<noteq> RIGHT then uartputc c s
        else s))"

text \<open>A run of \<^verbatim>\<open>consputc\<close> calls, and of \<^verbatim>\<open>cgaputc\<close> calls, stopping at the first
  that does not return.\<close>

fun consputs :: "int list \<Rightarrow> console \<Rightarrow> error + console" where
  "consputs [] s = Inr s"
| "consputs (c # cs) s = (case consputc c s of Inl err \<Rightarrow> Inl err | Inr s' \<Rightarrow> consputs cs s')"

fun cgaputs :: "int list \<Rightarrow> console \<Rightarrow> error + console" where
  "cgaputs [] s = Inr s"
| "cgaputs (c # cs) s = (case cgaputc c s of Inl err \<Rightarrow> Inl err | Inr s' \<Rightarrow> cgaputs cs s')"

text \<open>How many calls of a run of \<^verbatim>\<open>cgaputc\<close> take the scroll branch: a call takes
  it when it passes the range check of line 168 with \<^verbatim>\<open>scroll_due\<close>.\<close>

definition scrolls :: "int \<Rightarrow> console \<Rightarrow> bool" where
  "scrolls c s =
    (case cga_edit c (get_pos s) (crt s) of
       Inl err \<Rightarrow> False
     | Inr (pos, m) \<Rightarrow> 0 \<le> pos \<and> pos \<le> 25 * BUFF_SIZE \<and> scroll_due pos)"

fun scroll_count :: "int list \<Rightarrow> console \<Rightarrow> nat" where
  "scroll_count [] s = 0"
| "scroll_count (c # cs) s =
     (case cgaputc c s of
        Inl err \<Rightarrow> 0
      | Inr s' \<Rightarrow> (if scrolls c s then 1 else 0) + scroll_count cs s')"

text \<open>\<^verbatim>\<open>consolewrite\<close>, lines 323 to 336: each byte is passed as \<^verbatim>\<open>buf[i] & 0xff\<close>;
  the call returns \<^verbatim>\<open>n\<close>.\<close>

definition consolewrite :: "8 word list \<Rightarrow> console \<Rightarrow> error + (int \<times> console)" where
  "consolewrite bytes s =
    (case consputs (map uint bytes) s of
       Inl err \<Rightarrow> Inl err
     | Inr s' \<Rightarrow> Inr (int (length bytes), s'))"

subsection \<open>The input buffer\<close>

text \<open>The struct \<^verbatim>\<open>input\<close>. The field \<^verbatim>\<open>max\<close> is \<^verbatim>\<open>max_idx\<close> here. Only the cells
  0 to 127 of \<^verbatim>\<open>buf\<close> exist; every access below is to one of them or is a
  \<^verbatim>\<open>MemFault\<close>.\<close>

record input =
  buf :: "nat \<Rightarrow> 8 word"
  r :: "32 word"
  w :: "32 word"
  e :: "32 word"
  max_idx :: "32 word"

definition input0 :: input where
  "input0 = \<lparr>buf = (\<lambda>i. 0), r = 0, w = 0, e = 0, max_idx = 0\<rparr>"

text \<open>\<^verbatim>\<open>memmove\<close> inside \<^verbatim>\<open>input.buf\<close>, with offsets from the start of the array. A
  call for zero bytes touches nothing.\<close>

definition memmove_buf :: "nat \<Rightarrow> nat \<Rightarrow> nat \<Rightarrow> (nat \<Rightarrow> 8 word) \<Rightarrow> error + (nat \<Rightarrow> 8 word)" where
  "memmove_buf dst src n b =
    (if n = 0 then Inr b
     else if dst + n \<le> INPUT_BUF \<and> src + n \<le> INPUT_BUF
       then Inr (\<lambda>i. if dst \<le> i \<and> i < dst + n then b (src + (i - dst)) else b i)
     else Inl MemFault)"

text \<open>The kill-line loop, lines 224 to 229. The second component collects the
  arguments of the \<^verbatim>\<open>consputc\<close> calls.\<close>

function kill_line :: "input \<Rightarrow> int list \<Rightarrow> input \<times> int list" where
  "kill_line s out =
    (if max_idx s \<noteq> w s \<and> sint (buf s (unat ((max_idx s - 1) mod 128))) \<noteq> NL
     then kill_line (s\<lparr>max_idx := max_idx s - 1, e := e s - 1\<rparr>) (out @ [BACKSPACE])
     else (s, out))"
  by pat_completeness auto
termination
proof (relation "measure (\<lambda>(s, out). unat (max_idx s - w s))")
  show "wf (measure (\<lambda>(s, out). unat (max_idx s - w s)))"
    by simp
next
  fix s :: input and out :: "int list"
  assume "max_idx s \<noteq> w s \<and> sint (buf s (unat ((max_idx s - 1) mod 128))) \<noteq> NL"
  then have "max_idx s - w s \<noteq> 0"
    by simp
  then have "unat (max_idx s - w s - 1) < unat (max_idx s - w s)"
    by (simp add: unat_minus_one unat_gt_0)
  moreover have "max_idx s - 1 - w s = max_idx s - w s - 1"
    by simp
  ultimately have "unat (max_idx s - 1 - w s) < unat (max_idx s - w s)"
    by (simp only:)
  then show "((s\<lparr>max_idx := max_idx s - 1, e := e s - 1\<rparr>, out @ [BACKSPACE]), (s, out))
      \<in> measure (\<lambda>(s, out). unat (max_idx s - w s))"
    by simp
qed

declare kill_line.simps [simp del]

text \<open>The default case of the switch, lines 258 to 275. Storing an \<^verbatim>\<open>int\<close> in a
  \<^verbatim>\<open>char\<close> cell keeps its low eight bits.\<close>

definition default_input :: "int \<Rightarrow> input \<Rightarrow> error + (input \<times> int list)" where
  "default_input c0 s =
    (if c0 \<noteq> 0 \<and> max_idx s < 128 then
       (let c = (if c0 = CR then NL else c0) in
        case
          (if c \<noteq> NL then
             (case memmove_buf (unat (e s) + 1) (unat (e s)) (unat (max_idx s - e s)) (buf s) of
                Inl err \<Rightarrow> Inl err
              | Inr b \<Rightarrow>
                  Inr (s\<lparr>buf := b(unat (e s mod 128) := word_of_int c),
                         e := e s + 1, max_idx := max_idx s + 1\<rparr>))
           else
             Inr (s\<lparr>buf := (buf s)(unat (max_idx s mod 128) := word_of_int c),
                    max_idx := max_idx s + 1\<rparr>))
        of
          Inl err \<Rightarrow> Inl err
        | Inr s1 \<Rightarrow>
            Inr (if c = NL \<or> c = Ctrl_D \<or> max_idx s1 = r s1 + 128
                 then s1\<lparr>w := max_idx s1, e := max_idx s1\<rparr> else s1,
                 [c]))
     else Inr (s, []))"

text \<open>One turn of the \<^verbatim>\<open>while\<close> loop of \<^verbatim>\<open>consoleintr\<close> for a code \<^verbatim>\<open>c >= 0\<close>: the
  buffer afterwards and the arguments of the \<^verbatim>\<open>consputc\<close> calls made, in order.
  \<^verbatim>\<open>C('P')\<close> only sets \<^verbatim>\<open>doprocdump\<close>, which the loop below keeps.\<close>

definition consoleintr_step :: "int \<Rightarrow> input \<Rightarrow> error + (input \<times> int list)" where
  "consoleintr_step c s =
    (if c = Ctrl_P then Inr (s, [])
     else if c = Ctrl_U then Inr (kill_line s [])
     else if c = Ctrl_H \<or> c = DEL then
       (if e s \<noteq> w s then
          (case memmove_buf (unat (e s - 1)) (unat (e s - 1) + 1)
                  (unat ((max_idx s - 1) - (e s - 1))) (buf s) of
             Inl err \<Rightarrow> Inl err
           | Inr b \<Rightarrow>
               Inr (s\<lparr>max_idx := max_idx s - 1, e := e s - 1, buf := b\<rparr>, [BACKSPACE]))
        else Inr (s, []))
     else if c = UP then Inr (s, [c])
     else if c = DOWN then Inr (s, [c])
     else if c = LEFT then
       (if e s \<noteq> w s then Inr (s\<lparr>e := e s - 1\<rparr>, [c]) else Inr (s, []))
     else if c = RIGHT then
       (if e s < max_idx s then Inr (s\<lparr>e := e s + 1\<rparr>, [c]) else Inr (s, []))
     else default_input c s)"

text \<open>The loop of \<^verbatim>\<open>consoleintr\<close> seen from the buffer alone: the buffer after the
  codes up to the first negative one, and everything echoed on the way.\<close>

fun edit_codes :: "int list \<Rightarrow> input \<Rightarrow> error + (input \<times> int list)" where
  "edit_codes [] s = Inr (s, [])"
| "edit_codes (c # cs) s =
     (if c < 0 then Inr (s, [])
      else (case consoleintr_step c s of
              Inl err \<Rightarrow> Inl err
            | Inr (s1, out1) \<Rightarrow>
                (case edit_codes cs s1 of
                   Inl err \<Rightarrow> Inl err
                 | Inr (s2, out2) \<Rightarrow> Inr (s2, out1 @ out2))))"

text \<open>\<^verbatim>\<open>consoleintr\<close>, lines 211 to 283. The list holds what successive calls of
  \<^verbatim>\<open>getc\<close> return; the loop ends at the first negative code, and an exhausted
  list stands for it. The echo of each turn goes through \<^verbatim>\<open>consputc\<close> before the
  next code is fetched. The result carries \<^verbatim>\<open>doprocdump\<close>.\<close>

fun consoleintr :: "int list \<Rightarrow> input \<Rightarrow> console \<Rightarrow> bool \<Rightarrow> error + (input \<times> console \<times> bool)" where
  "consoleintr [] s k dump = Inr (s, k, dump)"
| "consoleintr (c # cs) s k dump =
     (if c < 0 then Inr (s, k, dump)
      else (case consoleintr_step c s of
              Inl err \<Rightarrow> Inl err
            | Inr (s', out) \<Rightarrow>
                (case consputs out k of
                   Inl err \<Rightarrow> Inl err
                 | Inr k' \<Rightarrow> consoleintr cs s' k' (dump \<or> c = Ctrl_P))))"

text \<open>The invariant of the four cursors, \<open>r \<le> w \<le> e \<le> max \<le> r + CAP\<close>, read
  on the unsigned values.\<close>

definition cursors_ok :: "input \<Rightarrow> bool" where
  "cursors_ok s =
    (unat (r s) \<le> unat (w s) \<and> unat (w s) \<le> unat (e s) \<and> unat (e s) \<le> unat (max_idx s)
     \<and> unat (max_idx s) \<le> unat (r s) + INPUT_BUF)"

subsection \<open>Reading\<close>

text \<open>
  What a call of \<^verbatim>\<open>consoleread\<close> comes to: \<^verbatim>\<open>Return v dst s\<close> when it returns \<open>v\<close>
  having stored the bytes \<open>dst\<close> through its pointer, and \<^verbatim>\<open>Sleep n dst s\<close> when it
  is inside \<^verbatim>\<open>sleep\<close> with \<open>n\<close> bytes still wanted; it goes on from there, by the
  same loop, when the buffer has changed.
\<close>

datatype outcome = Return int "8 word list" input | Sleep int "8 word list" input

text \<open>The loop of lines 294 to 316, with \<^verbatim>\<open>killed\<close> for \<^verbatim>\<open>myproc()->killed\<close>. The
  count \<^verbatim>\<open>n\<close> only goes down from the caller's value, so \<^verbatim>\<open>n < target\<close> and
  \<^verbatim>\<open>target - n\<close> do not wrap.\<close>

function consoleread_loop :: "bool \<Rightarrow> int \<Rightarrow> int \<Rightarrow> 8 word list \<Rightarrow> input \<Rightarrow> outcome" where
  "consoleread_loop killed target n dst s =
    (if n > 0 then
       (if r s = w s then (if killed then Return (- 1) dst s else Sleep n dst s)
        else
          (let c = sint (buf s (unat (r s mod 128))); s1 = s\<lparr>r := r s + 1\<rparr> in
           if c = Ctrl_D then
             Return (target - n) dst (if n < target then s1\<lparr>r := r s1 - 1\<rparr> else s1)
           else if c = NL then Return (target - (n - 1)) (dst @ [word_of_int c]) s1
           else consoleread_loop killed target (n - 1) (dst @ [word_of_int c]) s1))
     else Return (target - n) dst s)"
  by pat_completeness auto
termination
  by (relation "measure (\<lambda>(killed, target, n, dst, s). nat n)") auto

declare consoleread_loop.simps [simp del]

definition consoleread :: "bool \<Rightarrow> int \<Rightarrow> input \<Rightarrow> outcome" where
  "consoleread killed n s = consoleread_loop killed n n [] s"

subsection \<open>Formatted output\<close>

text \<open>\<^verbatim>\<open>digits[d]\<close> for \<^verbatim>\<open>digits[] = "0123456789abcdef"\<close>.\<close>

definition digit :: "nat \<Rightarrow> int" where
  "digit d = (if d < 10 then 48 + int d else 87 + int d)"

text \<open>The \<^verbatim>\<open>do ... while\<close> loop of \<^verbatim>\<open>printint\<close>, lines 41 to 43, on the unsigned value:
  the digits, least significant first. \<^verbatim>\<open>cprintf\<close> calls \<^verbatim>\<open>printint\<close> with base 10
  and base 16 only; below base 2 the C loop divides by zero or does not end, and
  the equation gives no digits there.\<close>

function printint_digits :: "nat \<Rightarrow> nat \<Rightarrow> int list" where
  "printint_digits x base =
    (if base < 2 then []
     else digit (x mod base) # (if x div base \<noteq> 0 then printint_digits (x div base) base else []))"
  by pat_completeness auto
termination
proof (relation "measure (\<lambda>(x, base). x)")
  show "wf (measure (\<lambda>(x, base). x))"
    by simp
next
  fix x base :: nat
  assume "\<not> base < 2" and "x div base \<noteq> 0"
  then have "1 < base" and "0 < x"
    by (auto intro: Nat.gr0I)
  then have "x div base < x"
    by (rule div_less_dividend)
  then show "((x div base, base), (x, base)) \<in> measure (\<lambda>(x, base). x)"
    by simp
qed

declare printint_digits.simps [simp del]

text \<open>\<^verbatim>\<open>printint\<close>, lines 27 to 50: the arguments of its \<^verbatim>\<open>consputc\<close> calls, in
  order. \<^verbatim>\<open>xx\<close> is the 32-bit argument; \<^verbatim>\<open>x = -xx\<close> is taken in 32 bits.\<close>

definition printint :: "32 word \<Rightarrow> nat \<Rightarrow> bool \<Rightarrow> int list" where
  "printint xx base sign =
    (let neg = (sign \<and> sint xx < 0);
         x = (if neg then - xx else xx)
     in rev (printint_digits (unat x) base @ (if neg then [45] else [])))"

text \<open>
  The scan of \<^verbatim>\<open>cprintf\<close>, lines 69 to 100: the arguments of the \<^verbatim>\<open>consputc\<close> calls
  it makes, in order. The format is the list of the bytes before the terminating
  zero; the end of the list, like a zero byte, reads as \<^verbatim>\<open>c == 0\<close>. \<^verbatim>\<open>argp\<close> is the
  sequence of 32-bit words that follow \<^verbatim>\<open>fmt\<close> on the stack and \<open>k\<close> the number of
  them used so far. \<^verbatim>\<open>str_at a\<close> is the string at address \<open>a\<close>, without its
  terminating zero. A byte of the format is passed as \<^verbatim>\<open>fmt[i] & 0xff\<close>, a
  byte of a \<^verbatim>\<open>%s\<close> string as the signed \<^verbatim>\<open>char\<close> it is.
\<close>

fun cprintf_scan :: "8 word list \<Rightarrow> (nat \<Rightarrow> 32 word) \<Rightarrow> (32 word \<Rightarrow> 8 word list) \<Rightarrow> nat \<Rightarrow> int list" where
  "cprintf_scan [] argp str_at k = []"
| "cprintf_scan (b # fmt) argp str_at k =
     (if uint b = 0 then []
      else if uint b \<noteq> PERCENT then uint b # cprintf_scan fmt argp str_at k
      else
        (case fmt of
           [] \<Rightarrow> []
         | b2 # fmt' \<Rightarrow>
             (if uint b2 = 0 then []
              else if uint b2 = 100 then
                printint (argp k) 10 True @ cprintf_scan fmt' argp str_at (k + 1)
              else if uint b2 = 120 \<or> uint b2 = 112 then
                printint (argp k) 16 False @ cprintf_scan fmt' argp str_at (k + 1)
              else if uint b2 = 115 then
                map sint (if argp k = 0 then [40, 110, 117, 108, 108, 41] else str_at (argp k))
                  @ cprintf_scan fmt' argp str_at (k + 1)
              else if uint b2 = PERCENT then PERCENT # cprintf_scan fmt' argp str_at k
              else [PERCENT, uint b2] @ cprintf_scan fmt' argp str_at k)))"

text \<open>\<^verbatim>\<open>cprintf\<close>, lines 54 to 104. A null \<^verbatim>\<open>fmt\<close> is \<open>None\<close> and ends in \<^verbatim>\<open>panic\<close>.\<close>

definition cprintf :: "8 word list option \<Rightarrow> (nat \<Rightarrow> 32 word) \<Rightarrow> (32 word \<Rightarrow> 8 word list) \<Rightarrow> console \<Rightarrow> error + console" where
  "cprintf fmt argp str_at s =
    (case fmt of
       None \<Rightarrow> Inl Panic
     | Some bytes \<Rightarrow> consputs (cprintf_scan bytes argp str_at 0) s)"

text \<open>Two readings of a format prefix, by the same scan: whether the scan
  reads the whole prefix and is then ready for a new item (no zero byte ends it
  early, and its last \<^verbatim>\<open>%\<close> has its directive character), and how many arguments
  the prefix uses.\<close>

fun scans_through :: "8 word list \<Rightarrow> bool" where
  "scans_through [] = True"
| "scans_through (b # fmt) =
     (if uint b = 0 then False
      else if uint b \<noteq> PERCENT then scans_through fmt
      else (case fmt of [] \<Rightarrow> False | b2 # fmt' \<Rightarrow> (if uint b2 = 0 then False else scans_through fmt')))"

fun args_used :: "8 word list \<Rightarrow> nat" where
  "args_used [] = 0"
| "args_used (b # fmt) =
     (if uint b = 0 then 0
      else if uint b \<noteq> PERCENT then args_used fmt
      else (case fmt of
              [] \<Rightarrow> 0
            | b2 # fmt' \<Rightarrow>
                (if uint b2 = 0 then 0
                 else if uint b2 = 100 \<or> uint b2 = 120 \<or> uint b2 = 112 \<or> uint b2 = 115
                   then 1 + args_used fmt'
                 else args_used fmt')))"

text \<open>The bytes released to the reader and not yet read, in the order in which
  \<^verbatim>\<open>consoleread\<close> meets them: the cells \<open>r\<close>, \<open>r + 1\<close>, ... up to \<open>w\<close>, each taken
  modulo \<^verbatim>\<open>INPUT_BUF\<close>.\<close>

definition pending :: "input \<Rightarrow> 8 word list" where
  "pending s = map (\<lambda>i. buf s (unat ((r s + of_nat i) mod 128))) [0..<unat (w s - r s)]"

text \<open>The cells after a scroll taken with the cursor at the start of row 24,
  offset 1920: rows 1 to 23 moved up by one row, row 23 cleared, the cells from
  1920 on as they were.\<close>

definition scrolled :: "(nat \<Rightarrow> 16 word) \<Rightarrow> (nat \<Rightarrow> 16 word)" where
  "scrolled m = (\<lambda>i. if i < 1840 then m (i + 80) else if i < 1920 then 0 else m i)"

text \<open>The line being edited, the cells from \<open>w\<close> up to \<open>max\<close>, holds no EOF byte
  and no newline byte.\<close>

definition line_clean :: "input \<Rightarrow> bool" where
  "line_clean s = (\<forall>i. unat (w s) \<le> i \<and> i < unat (max_idx s) \<longrightarrow> buf s i \<noteq> 4 \<and> buf s i \<noteq> 10)"

text \<open>A run of the loop of \<^verbatim>\<open>consoleintr\<close> in which kill-line, whenever it is
  used, finds the cursor at the end of the line (\<open>e = max\<close>).\<close>

fun kills_at_end :: "int list \<Rightarrow> input \<Rightarrow> bool" where
  "kills_at_end [] s = True"
| "kills_at_end (c # cs) s =
     (if c < 0 then True
      else if c = Ctrl_U \<and> e s \<noteq> max_idx s then False
      else (case consoleintr_step c s of
              Inl err \<Rightarrow> True
            | Inr (s1, out) \<Rightarrow> kills_at_end cs s1))"

text \<open>Two buffers that typing reaches from the empty one: after \<open>n\<close> letters
  \<^verbatim>\<open>a\<close>, and after 127 of them and a newline.\<close>

definition typed_a :: "nat \<Rightarrow> input" where
  "typed_a n = \<lparr>buf = (\<lambda>i. if i < n then 97 else 0), r = 0, w = 0, e = of_nat n, max_idx = of_nat n\<rparr>"

definition full_line :: input where
  "full_line = \<lparr>buf = (\<lambda>i. if i < 127 then 97 else if i = 127 then 10 else 0),
      r = 0, w = 128, e = 128, max_idx = 128\<rparr>"

text \<open>A console to run examples on: not panicked, nothing sent yet, the cursor
  at offset 0 and every cell zero.\<close>

definition blank_console :: console where
  "blank_console = \<lparr>panicked = False, uart = [], cursor_hi = 0, cursor_lo = 0, crt = (\<lambda>i. 0)\<rparr>"

section \<open>The screen driver\<close>

lemma get_set_pos: "get_pos (set_pos p s) = p" if "0 \<le> p" "p < 65536"
proof -
  have tb: "take_bit 16 p = p"
    using that by (simp add: take_bit_int_eq_self)
  have "push_bit 8 (take_bit 8 (drop_bit 8 p)) OR take_bit 8 p = take_bit 16 p"
    by (rule bit_eqI) (auto simp add: bit_simps)
  then show ?thesis
    by (simp add: get_pos_def set_pos_def uint_word_of_int_eq tb)
qed

lemma get_pos_range: "0 \<le> get_pos s \<and> get_pos s < 65536"
proof -
  have eq: "get_pos s = take_bit 16 (get_pos s)"
    unfolding get_pos_def
    by (rule bit_eqI) (auto simp add: bit_simps dest: bit_imp_le_length)
  have "0 \<le> take_bit 16 (get_pos s)" by simp
  moreover have "take_bit 16 (get_pos s) < 2 ^ 16" by (rule take_bit_int_less_exp)
  ultimately show ?thesis using eq by simp
qed

lemma set_pos_fields [simp]:
  "crt (set_pos p s) = crt s" "uart (set_pos p s) = uart s" "panicked (set_pos p s) = panicked s"
  by (simp_all add: set_pos_def)

lemma set_pos_twice [simp]: "set_pos p (set_pos q s) = set_pos p s"
  by (simp add: set_pos_def)

lemma set_pos_crt: "set_pos p (s\<lparr>crt := m\<rparr>) = (set_pos p s)\<lparr>crt := m\<rparr>"
  by (simp add: set_pos_def)

lemma set_get_pos: "set_pos (get_pos s) s = s"
proof -
  have hi: "word_of_int (drop_bit 8 (get_pos s)) = cursor_hi s"
    unfolding get_pos_def
    by (rule bit_word_eqI) (auto simp add: bit_simps dest: bit_imp_le_length)
  have lo: "word_of_int (get_pos s) = cursor_lo s"
    unfolding get_pos_def
    by (rule bit_word_eqI) (auto simp add: bit_simps dest: bit_imp_le_length)
  show ?thesis
    by (simp add: set_pos_def hi lo)
qed

lemma cgaputc_newline:
  assumes "get_pos s = p" and "p + (80 - p mod 80) < 1920" 
  shows "cgaputc NL s = Inr (set_pos (p + (80 - p mod 80)) s)" and "\<not> scrolls NL s"
proof -
  have "0 \<le> p" using assms(1) get_pos_range by blast
  then have "0 \<le> p + (80 - p mod 80)"
    by (smt (verit) pos_mod_bound)
  moreover have "\<not> scroll_due (p + (80 - p mod 80))"
    using assms(2) by (simp add: scroll_due_def)
  ultimately show "cgaputc NL s = Inr (set_pos (p + (80 - p mod 80)) s)" and "\<not> scrolls NL s"
    using assms by (simp_all add: cgaputc_def cga_edit_def scrolls_def)
qed

lemma cgaputs_append:
  "cgaputs (xs @ ys) s = (case cgaputs xs s of Inl err \<Rightarrow> Inl err | Inr s' \<Rightarrow> cgaputs ys s')"
  by (induction xs arbitrary: s) (simp_all split: sum.splits)

lemma scroll_count_append:
  "cgaputs xs s = Inr s' \<Longrightarrow> scroll_count (xs @ ys) s = scroll_count xs s + scroll_count ys s'"
  by (induction xs arbitrary: s) (simp_all split: sum.splits)

lemma newlines_above_last_row:
  assumes "get_pos s = 80 * int k" and "k + n \<le> 23"
  shows "cgaputs (replicate n NL) s = Inr (set_pos (80 * int (k + n)) s)
    \<and> scroll_count (replicate n NL) s = 0"
  using assms
proof (induction n arbitrary: s k)
  case 0
  then show ?case
    using set_get_pos [of s] by simp
next
  case (Suc n)
  have nl: "80 * int k + (80 - 80 * int k mod 80) = 80 * int (Suc k)"
    by simp
  from Suc.prems have lt: "80 * int k + (80 - 80 * int k mod 80) < 1920"
    unfolding nl by simp
  note one = cgaputc_newline [OF Suc.prems(1) lt, unfolded nl]
  have pos: "get_pos (set_pos (80 * int (Suc k)) s) = 80 * int (Suc k)"
    using Suc.prems(2) by (intro get_set_pos) simp_all
  from Suc.prems(2) have "Suc k + n \<le> 23"
    by simp
  from Suc.IH [OF pos this] one show ?case
    by simp
qed

lemma cga_scroll_cells:
  assumes "1920 \<le> pos" and "pos \<le> 2000"
  shows "cga_scroll pos m =
    (pos - 80, \<lambda>i. if i < 1840 then m (i + 80)
                    else if nat (pos - 80) \<le> i \<and> i < 1920 then 0 else m i)"
  using assms by (auto simp add: cga_scroll_def memset_crt_def memmove_crt_def fun_eq_iff add.commute)

lemma cgaputc_newline_last_row:
  assumes "get_pos s = 1840"
  shows "cgaputc NL s = Inr (s\<lparr>crt := scrolled (crt s)\<rparr>)" and "scrolls NL s"
proof -
  have "cga_scroll 1920 (crt s) = (1840, scrolled (crt s))"
    by (simp add: cga_scroll_cells scrolled_def fun_eq_iff)
  moreover have "set_pos 1840 (s\<lparr>crt := scrolled (crt s)\<rparr>) = s\<lparr>crt := scrolled (crt s)\<rparr>"
    using set_get_pos [of s] assms by (simp add: set_pos_crt)
  ultimately show "cgaputc NL s = Inr (s\<lparr>crt := scrolled (crt s)\<rparr>)" and "scrolls NL s"
    using assms by (simp_all add: cgaputc_def cga_edit_def scroll_due_def scrolls_def)
qed

lemma get_pos_crt [simp]: "get_pos (s\<lparr>crt := m\<rparr>) = get_pos s"
  by (simp add: get_pos_def)

lemma newlines_24:
  assumes "get_pos s = 0"
  shows "cgaputs (replicate 24 NL) s = Inr ((set_pos 1840 s)\<lparr>crt := scrolled (crt s)\<rparr>)"
    and "scroll_count (replicate 24 NL) s = 1"
    and "cgaputs (replicate 25 NL) s = Inr ((set_pos 1840 s)\<lparr>crt := scrolled (scrolled (crt s))\<rparr>)"
    and "scroll_count (replicate 25 NL) s = 2"
    and "scroll_count (replicate 23 NL) s = 0"
proof -
  have p0: "get_pos s = 80 * int 0"
    using assms by simp
  have a: "cgaputs (replicate 23 NL) s = Inr (set_pos 1840 s)"
    and a0: "scroll_count (replicate 23 NL) s = 0"
    using newlines_above_last_row [OF p0, of 23] by simp_all
  have p23: "get_pos (set_pos 1840 s) = 1840"
    by (intro get_set_pos) simp_all
  note b = cgaputc_newline_last_row [OF p23]
  have r24: "replicate 24 NL = replicate 23 NL @ [NL]"
    using replicate_add [of 23 1 NL] by simp
  have r25: "replicate 25 NL = replicate 24 NL @ [NL]"
    using replicate_add [of 24 1 NL] by simp
  show c24: "cgaputs (replicate 24 NL) s = Inr ((set_pos 1840 s)\<lparr>crt := scrolled (crt s)\<rparr>)"
    unfolding r24 cgaputs_append a using b by simp
  show n24: "scroll_count (replicate 24 NL) s = 1"
    unfolding r24 scroll_count_append [OF a] using a0 b by simp
  have p24: "get_pos ((set_pos 1840 s)\<lparr>crt := scrolled (crt s)\<rparr>) = 1840"
    using p23 by simp
  note c = cgaputc_newline_last_row [OF p24]
  show "cgaputs (replicate 25 NL) s = Inr ((set_pos 1840 s)\<lparr>crt := scrolled (scrolled (crt s))\<rparr>)"
    unfolding r25 cgaputs_append c24 using c by simp
  show "scroll_count (replicate 25 NL) s = 2"
    unfolding r25 scroll_count_append [OF c24] using n24 c by simp
  show "scroll_count (replicate 23 NL) s = 0"
    by (rule a0)
qed

lemma cga_edit_pos_nonneg:
  "cga_edit c pos m = Inr (pos', m') \<Longrightarrow> 0 \<le> pos \<Longrightarrow> 0 \<le> pos'"
  by (auto simp add: cga_edit_def split: if_splits)

lemma cgaputc_pos_in_range:
  assumes "cgaputc c s = Inr s'"
  shows "0 \<le> get_pos s' \<and> get_pos s' \<le> 1920"
proof -
  from assms obtain pos m where ed: "cga_edit c (get_pos s) (crt s) = Inr (pos, m)"
    and rng: "0 \<le> pos" "pos \<le> 2000"
    by (auto simp add: cgaputc_def split: sum.splits prod.splits if_splits)
  show ?thesis
  proof (cases "scroll_due pos")
    case True
    then have "1920 \<le> pos"
      by (simp add: scroll_due_def)
    moreover from assms ed rng True have "s' = set_pos (pos - 80) (s\<lparr>crt := snd (cga_scroll pos m)\<rparr>)"
      by (simp add: cgaputc_def cga_scroll_def)
    ultimately show ?thesis
      using rng by (simp add: get_set_pos)
  next
    case False
    then have "pos < 1920"
      by (simp add: scroll_due_def)
    moreover from assms ed rng False have "s' = set_pos pos (s\<lparr>crt := m\<rparr>)"
      by (simp add: cgaputc_def)
    ultimately show ?thesis
      using rng by (simp add: get_set_pos)
  qed
qed

lemma cgaputc_range_check:
  assumes "c = NL \<or> c = LEFT \<or> c = RIGHT \<or> c = UP \<or> c = DOWN"
    and "cga_edit c (get_pos s) (crt s) = Inr (pos, m)"
    and "pos < 0 \<or> 2000 < pos"
  shows "cgaputc c s = Inl Panic"
  using assms by (simp add: cgaputc_def)

lemma cgaputc_right_at_end:
  assumes "2000 \<le> get_pos s"
  shows "cgaputc RIGHT s = Inl Panic"
  using assms by (simp add: cgaputc_def cga_edit_def)

lemma cgaputc_insert_past_row_23:
  assumes "1920 < get_pos s"
    and "c \<noteq> NL \<and> c \<noteq> BACKSPACE \<and> c \<noteq> LEFT \<and> c \<noteq> RIGHT \<and> c \<noteq> UP \<and> c \<noteq> DOWN"
  shows "cgaputc c s = Inl MemFault"
  using assms by (simp add: cgaputc_def cga_edit_def)

lemma cgaputc_stays_on_screen:
  assumes "get_pos s < 1920"
  shows "\<exists>s'. cgaputc c s = Inr s' \<and> get_pos s' < 1920"
proof -
  have nn: "0 \<le> get_pos s"
    using get_pos_range by blast
  have nl: "get_pos s + (80 - get_pos s mod 80) \<le> 1920"
  proof -
    have "get_pos s div 80 < 24"
      using assms by simp
    then have "80 * (get_pos s div 80 + 1) \<le> 1920"
      by simp
    moreover have "get_pos s + (80 - get_pos s mod 80) = 80 * (get_pos s div 80 + 1)"
      by (simp add: algebra_simps minus_mod_eq_mult_div [symmetric])
    ultimately show ?thesis
      by simp
  qed
  have "\<exists>pos m. cga_edit c (get_pos s) (crt s) = Inr (pos, m) \<and> pos \<le> 1920 \<and> 0 \<le> pos"
    using assms nn nl by (simp add: cga_edit_def)
  then obtain pos m where ed: "cga_edit c (get_pos s) (crt s) = Inr (pos, m)"
    and le: "pos \<le> 1920" and ge: "0 \<le> pos"
    by blast
  show ?thesis
  proof (cases "scroll_due pos")
    case True
    then have p: "pos = 1920"
      using le by (simp add: scroll_due_def)
    have "cgaputc c s = Inr (set_pos (pos - 80) (s\<lparr>crt := snd (cga_scroll pos m)\<rparr>))"
      using ed p by (simp add: cgaputc_def cga_scroll_def scroll_due_def)
    then show ?thesis
      using p by (simp add: get_set_pos)
  next
    case False
    then have p: "pos < 1920"
      by (simp add: scroll_due_def)
    have "cgaputc c s = Inr (set_pos pos (s\<lparr>crt := m\<rparr>))"
      using ed p ge False by (simp add: cgaputc_def)
    then show ?thesis
      using p ge by (simp add: get_set_pos)
  qed
qed


text \<open>
  Claim C5, as amended. With the cursor at offset 0, the first 23 newlines take
  it to offset 1840, the start of row 23, without a scroll. The 24th takes it to
  1920, row 24, and scrolls; the 25th does the same again: 25 newlines scroll
  twice. A scroll moves rows 1 to 23 up into rows 0 to 22, so that row 0 holds
  what row 1 held, clears row 23, leaves the cells of row 24 as they were, and
  takes one row off the offset, which is 1840 after each of the two.
\<close>

theorem newlines_scroll_at_row_24:
  assumes "get_pos s = 0"
  shows "scroll_count (replicate 23 NL) s = 0
    \<and> scroll_count (replicate 24 NL) s = 1
    \<and> scroll_count (replicate 25 NL) s = 2
    \<and> cgaputs (replicate 23 NL) s = Inr (set_pos 1840 s)
    \<and> cgaputs (replicate 24 NL) s =
        Inr ((set_pos 1840 s)\<lparr>crt := \<lambda>i. if i < 1840 then crt s (i + 80)
                                          else if i < 1920 then 0 else crt s i\<rparr>)
    \<and> cgaputs (replicate 25 NL) s =
        Inr ((set_pos 1840 s)\<lparr>crt := \<lambda>i. if i < 1760 then crt s (i + 160)
                                          else if i < 1920 then 0 else crt s i\<rparr>)
    \<and> get_pos (set_pos 1840 s) = 1840"
proof -
  have p0: "get_pos s = 80 * int 0"
    using assms by simp
  have twice: "scrolled (scrolled (crt s)) =
      (\<lambda>i. if i < 1760 then crt s (i + 160) else if i < 1920 then 0 else crt s i)"
    by (auto simp add: scrolled_def fun_eq_iff add.commute)
  have once: "scrolled (crt s) =
      (\<lambda>i. if i < 1840 then crt s (i + 80) else if i < 1920 then 0 else crt s i)"
    by (simp add: scrolled_def)
  have "get_pos (set_pos 1840 s) = 1840"
    by (intro get_set_pos) simp_all
  moreover have "cgaputs (replicate 23 NL) s = Inr (set_pos 1840 s)"
    using newlines_above_last_row [OF p0, of 23] by simp
  moreover note run = newlines_24 [OF assms]
  have "cgaputs (replicate 24 NL) s =
        Inr ((set_pos 1840 s)\<lparr>crt := \<lambda>i. if i < 1840 then crt s (i + 80)
                                          else if i < 1920 then 0 else crt s i\<rparr>)"
    using run(1) by (simp only: once)
  moreover have "cgaputs (replicate 25 NL) s =
        Inr ((set_pos 1840 s)\<lparr>crt := \<lambda>i. if i < 1760 then crt s (i + 160)
                                          else if i < 1920 then 0 else crt s i\<rparr>)"
    using run(3) by (simp only: twice)
  ultimately show ?thesis
    using run(2,4,5) by simp
qed

theorem newlines_scroll_at_row_24_witness:
  "get_pos blank_console = 0
   \<and> scroll_count (replicate 24 NL) blank_console = 1
   \<and> scroll_count (replicate 25 NL) blank_console = 2
   \<and> cgaputs (replicate 25 NL) blank_console = Inr (blank_console\<lparr>cursor_hi := 7, cursor_lo := 48\<rparr>)"
proof -
  have p0: "get_pos blank_console = 0"
    by (simp add: blank_console_def get_pos_def)
  have cells: "crt blank_console = (\<lambda>i. 0)"
    by (simp add: blank_console_def)
  have regs: "set_pos 1840 blank_console = blank_console\<lparr>cursor_hi := 7, cursor_lo := 48\<rparr>"
    by (simp add: set_pos_def)
  have same: "(blank_console\<lparr>cursor_hi := 7, cursor_lo := 48\<rparr>)\<lparr>crt := \<lambda>i. 0\<rparr>
      = blank_console\<lparr>cursor_hi := 7, cursor_lo := 48\<rparr>"
    by (simp add: blank_console_def)
  show ?thesis
    using newlines_scroll_at_row_24 [OF p0] p0
    by (simp add: cells regs same cong: if_cong)
qed

text \<open>Claim C5 as stated has exactly one scroll in 25 newlines from offset 0; on
  the blank console there are two.\<close>

theorem one_scroll_counterexample:
  "scroll_count (replicate 25 NL) blank_console = 2
   \<and> scroll_count (replicate 25 NL) blank_console \<noteq> 1"
proof -
  have "get_pos blank_console = 0"
    by (simp add: blank_console_def get_pos_def)
  from newlines_24(4) [OF this] show ?thesis
    by simp
qed

text \<open>
  Claim C6 says that every operation whose result would leave \<open>[0, 2000]\<close> ends in
  the panic of line 169. The range check comes after the \<^verbatim>\<open>memmove\<close> calls of lines
  154 and 164, whose length \<^verbatim>\<open>24*BUFF_SIZE - pos\<close> is negative above offset 1920:
  with the cursor at 2000 a printable character does not reach the check, while
  a right arrow or a newline there does and panics.
\<close>

theorem insert_at_2000_misses_range_check:
  "get_pos (blank_console\<lparr>cursor_hi := 7, cursor_lo := 208\<rparr>) = 2000
   \<and> cgaputc 120 (blank_console\<lparr>cursor_hi := 7, cursor_lo := 208\<rparr>) = Inl MemFault
   \<and> cgaputc RIGHT (blank_console\<lparr>cursor_hi := 7, cursor_lo := 208\<rparr>) = Inl Panic
   \<and> cgaputc NL (blank_console\<lparr>cursor_hi := 7, cursor_lo := 208\<rparr>) = Inl Panic"
  by (simp add: blank_console_def get_pos_def cgaputc_def cga_edit_def)

section \<open>The output multiplexer\<close>

lemma cgaputc_keeps_uart:
  "cgaputc c s = Inr s' \<Longrightarrow> uart s' = uart s \<and> panicked s' = panicked s"
  by (auto simp add: cgaputc_def set_pos_def split: sum.splits prod.splits if_splits)


text \<open>
  Claim C7. When the system is not panicked, \<^verbatim>\<open>consputc c\<close> sends backspace, space,
  backspace to the serial line if \<open>c\<close> is the backspace marker, sends nothing if
  \<open>c\<close> is one of the four arrow markers, and sends \<open>c\<close> itself otherwise; in every
  case it then hands \<open>c\<close> to \<^verbatim>\<open>cgaputc\<close>, whose outcome is the outcome of the call,
  and a call that returns leaves exactly those bytes added to the serial log.
\<close>

theorem consputc_serial_then_screen:
  assumes "\<not> panicked s"
  shows "consputc c s =
      cgaputc c (s\<lparr>uart := uart s @
        (if c = BACKSPACE then [8, 32, 8]
         else if c = UP \<or> c = DOWN \<or> c = LEFT \<or> c = RIGHT then []
         else [c])\<rparr>)
    \<and> (\<forall>s'. consputc c s = Inr s' \<longrightarrow>
          uart s' = uart s @
            (if c = BACKSPACE then [8, 32, 8]
             else if c = UP \<or> c = DOWN \<or> c = LEFT \<or> c = RIGHT then []
             else [c]))"
proof -
  let ?sent = "if c = BACKSPACE then [8, 32, 8]
         else if c = UP \<or> c = DOWN \<or> c = LEFT \<or> c = RIGHT then []
         else [c]"
  have eq: "consputc c s = cgaputc c (s\<lparr>uart := uart s @ ?sent\<rparr>)"
    using assms by (simp add: consputc_def uartputc_def)
  have "uart s' = uart s @ ?sent" if "consputc c s = Inr s'" for s'
  proof -
    from that eq have "cgaputc c (s\<lparr>uart := uart s @ ?sent\<rparr>) = Inr s'"
      by simp
    then have "uart s' = uart (s\<lparr>uart := uart s @ ?sent\<rparr>)"
      by (simp add: cgaputc_keeps_uart)
    then show ?thesis
      by simp
  qed
  with eq show ?thesis
    by blast
qed

theorem consputc_serial_then_screen_witness:
  "\<not> panicked blank_console
   \<and> consputc BACKSPACE blank_console = Inr (blank_console\<lparr>uart := [8, 32, 8]\<rparr>)
   \<and> consputc LEFT blank_console = Inr blank_console
   \<and> consputc NL blank_console = Inr (blank_console\<lparr>uart := [NL], cursor_lo := 80\<rparr>)"
proof -
  have np: "\<not> panicked blank_console"
    by (simp add: blank_console_def)
  have pos0: "get_pos blank_console = 0"
    by (simp add: blank_console_def get_pos_def)
  show ?thesis
    using consputc_serial_then_screen [OF np, of BACKSPACE]
      consputc_serial_then_screen [OF np, of LEFT]
      consputc_serial_then_screen [OF np, of NL]
    by (simp add: blank_console_def cgaputc_def cga_edit_def get_pos_def set_pos_def
        scroll_due_def)
qed

section \<open>The input line editor\<close>

subsection \<open>The cursors\<close>

lemma unat_dec: "unat (y::32 word) < unat x \<Longrightarrow> unat (x - 1) = unat x - 1"
  by (metis unat_minus_one unat_0 not_less_zero)

lemma unat_inc_lt: "unat (x::32 word) < unat (y::32 word) \<Longrightarrow> unat (x + 1) = unat x + 1"
proof -
  assume a: "unat x < unat y"
  have "unat y < 2 ^ 32"
    using unsigned_less [of y] by simp
  with a have "unat x + unat (1::32 word) < 2 ^ LENGTH(32)"
    by simp
  then have "unat (x + 1) = unat x + unat (1::32 word)"
    by (rule unat_add_lem [THEN iffD1])
  then show ?thesis
    by simp
qed

lemma unat_inc: "unat (x::32 word) < 128 \<Longrightarrow> unat (x + 1) = unat x + 1"
  by (simp add: unat_word_ariths)

lemma word_neq_less: "(x::32 word) \<noteq> y \<or> y \<noteq> x \<Longrightarrow> unat y \<le> unat x \<Longrightarrow> unat y < unat x"
  by (auto simp add: word_unat_eq_iff)

lemma cursors_ok_kill_line:
  assumes "cursors_ok s" and "e s = max_idx s"
  shows "cursors_ok (fst (kill_line s out)) \<and> e (fst (kill_line s out)) = max_idx (fst (kill_line s out))"
  using assms
proof (induction s out rule: kill_line.induct)
  case (1 s out)
  show ?case
  proof (cases "max_idx s \<noteq> w s \<and> sint (buf s (unat ((max_idx s - 1) mod 128))) \<noteq> NL")
    case True
    let ?s = "s\<lparr>max_idx := max_idx s - 1, e := e s - 1\<rparr>"
    from True "1.prems" have lt: "unat (w s) < unat (max_idx s)"
      by (simp add: cursors_ok_def word_neq_less)
    then have "unat (max_idx s - 1) = unat (max_idx s) - 1"
      by (rule unat_dec)
    with lt "1.prems" have "cursors_ok ?s" and "e ?s = max_idx ?s"
      by (auto simp add: cursors_ok_def)
    from "1.IH" [OF True this] True show ?thesis
      by (subst (1 2 3) kill_line.simps) simp
  next
    case False
    with "1.prems" show ?thesis
      by (subst (1 2 3) kill_line.simps) auto
  qed
qed

lemma default_input_cursors:
  assumes "default_input c s = Inr (s', out)"
  shows "r s' = r s \<and>
    (s' = s \<or>
     max_idx s < 128 \<and> max_idx s' = max_idx s + 1 \<and>
       (w s' = w s \<and> e s' = e s + 1 \<or> w s' = max_idx s + 1 \<and> e s' = max_idx s + 1))"
proof (cases "c \<noteq> 0 \<and> max_idx s < 128")
  case False
  with assms show ?thesis
    by (auto simp add: default_input_def)
next
  case True
  show ?thesis
  proof (cases "(if c = CR then NL else c) = NL")
    case nl: True
    with assms True show ?thesis
      by (auto simp add: default_input_def)
  next
    case other: False
    show ?thesis
    proof (cases "memmove_buf (unat (e s) + 1) (unat (e s)) (unat (max_idx s - e s)) (buf s)")
      case (Inl err)
      with assms True other show ?thesis
        by (simp add: default_input_def Let_def)
    next
      case (Inr b)
      with assms True other show ?thesis
        by (simp add: default_input_def Let_def split: if_splits) auto
    qed
  qed
qed

lemma cursors_ok_default:
  assumes "cursors_ok s" and "default_input c s = Inr (s', out)"
  shows "cursors_ok s'"
proof -
  have le: "unat (r s) \<le> unat (w s)" "unat (w s) \<le> unat (e s)" "unat (e s) \<le> unat (max_idx s)"
    using assms(1) by (simp_all add: cursors_ok_def)
  note f = default_input_cursors [OF assms(2)]
  show ?thesis
  proof (cases "s' = s")
    case True
    with assms(1) show ?thesis by simp
  next
    case False
    with f have m: "max_idx s < 128" and m': "max_idx s' = max_idx s + 1" and r': "r s' = r s"
      and we: "w s' = w s \<and> e s' = e s + 1 \<or> w s' = max_idx s + 1 \<and> e s' = max_idx s + 1"
      by auto
    from m have mm: "unat (max_idx s) < 128"
      by (simp add: word_less_nat_alt)
    then have m1: "unat (max_idx s + 1) = unat (max_idx s) + 1"
      by (rule unat_inc)
    from mm le have "unat (e s) < 128"
      by simp
    then have e1: "unat (e s + 1) = unat (e s) + 1"
      by (rule unat_inc)
    from we show ?thesis
    proof
      assume "w s' = w s \<and> e s' = e s + 1"
      with le mm m1 e1 m' r' show ?thesis
        by (simp add: cursors_ok_def)
    next
      assume "w s' = max_idx s + 1 \<and> e s' = max_idx s + 1"
      with le mm m1 e1 m' r' show ?thesis
        by (simp add: cursors_ok_def)
    qed
  qed
qed

lemma cursors_ok_step:
  assumes "cursors_ok s" and "consoleintr_step c s = Inr (s', out)"
    and "c \<noteq> Ctrl_U \<or> e s = max_idx s"
  shows "cursors_ok s'"
proof -
  have le: "unat (r s) \<le> unat (w s)" "unat (w s) \<le> unat (e s)" "unat (e s) \<le> unat (max_idx s)"
    "unat (max_idx s) \<le> unat (r s) + 128"
    using assms(1) by (simp_all add: cursors_ok_def)
  consider (dump) "c = Ctrl_P" | (kill) "c = Ctrl_U" | (bs) "c = Ctrl_H \<or> c = DEL"
    | (updown) "c = UP \<or> c = DOWN" | (left) "c = LEFT" | (right) "c = RIGHT"
    | (dflt) "c \<noteq> Ctrl_P" "c \<noteq> Ctrl_U" "c \<noteq> Ctrl_H" "c \<noteq> DEL" "c \<noteq> UP" "c \<noteq> DOWN"
        "c \<noteq> LEFT" "c \<noteq> RIGHT"
    by blast
  then show ?thesis
  proof cases
    case dump
    with assms show ?thesis by (simp add: consoleintr_step_def)
  next
    case kill
    with assms(3) have "e s = max_idx s" by simp
    from cursors_ok_kill_line [OF assms(1) this, of "[]"] assms(2) kill show ?thesis
      by (simp add: consoleintr_step_def)
  next
    case bs
    show ?thesis
    proof (cases "e s = w s")
      case True
      with bs assms show ?thesis by (auto simp add: consoleintr_step_def)
    next
      case False
      then have lt: "unat (w s) < unat (e s)"
        using le by (simp add: word_neq_less)
      then have e1: "unat (e s - 1) = unat (e s) - 1"
        by (rule unat_dec)
      from lt le have "unat (w s) < unat (max_idx s)"
        by simp
      then have m1: "unat (max_idx s - 1) = unat (max_idx s) - 1"
        by (rule unat_dec)
      from bs False assms(2) obtain b where
        "s' = s\<lparr>max_idx := max_idx s - 1, e := e s - 1, buf := b\<rparr>"
        by (auto simp add: consoleintr_step_def split: sum.splits)
      with le lt e1 m1 show ?thesis
        by (auto simp add: cursors_ok_def)
    qed
  next
    case updown
    with assms show ?thesis by (auto simp add: consoleintr_step_def)
  next
    case left
    show ?thesis
    proof (cases "e s = w s")
      case True
      with left assms show ?thesis by (auto simp add: consoleintr_step_def)
    next
      case False
      then have lt: "unat (w s) < unat (e s)"
        using le by (simp add: word_neq_less)
      then have "unat (e s - 1) = unat (e s) - 1"
        by (rule unat_dec)
      moreover from left False assms(2) have "s' = s\<lparr>e := e s - 1\<rparr>"
        by (simp add: consoleintr_step_def)
      ultimately show ?thesis
        using le lt by (auto simp add: cursors_ok_def)
    qed
  next
    case right
    show ?thesis
    proof (cases "e s < max_idx s")
      case False
      with right assms show ?thesis by (auto simp add: consoleintr_step_def)
    next
      case True
      then have lt: "unat (e s) < unat (max_idx s)"
        by (simp add: word_less_nat_alt)
      then have "unat (e s + 1) = unat (e s) + 1"
        by (rule unat_inc_lt)
      moreover from right True assms(2) have "s' = s\<lparr>e := e s + 1\<rparr>"
        by (simp add: consoleintr_step_def)
      ultimately show ?thesis
        using le lt by (auto simp add: cursors_ok_def)
    qed
  next
    case dflt
    then have "default_input c s = Inr (s', out)"
      using assms(2) by (simp add: consoleintr_step_def)
    with assms(1) show ?thesis
      by (rule cursors_ok_default)
  qed
qed

lemma cursors_ok_read:
  assumes "cursors_ok s"
  shows "case consoleread_loop killed target n dst s of
           Return v d s' \<Rightarrow> cursors_ok s' | Sleep k d s' \<Rightarrow> cursors_ok s'"
  using assms
proof (induction killed target n dst s rule: consoleread_loop.induct)
  case (1 killed target n dst s)
  show ?case
  proof (cases "0 < n \<and> r s \<noteq> w s")
    case False
    with "1.prems" show ?thesis
      by (subst consoleread_loop.simps) auto
  next
    case True
    then have "unat (r s) < unat (w s)"
      using "1.prems" by (simp add: cursors_ok_def word_neq_less)
    then have r1: "unat (r s + 1) = unat (r s) + 1"
      by (rule unat_inc_lt)
    with \<open>unat (r s) < unat (w s)\<close> "1.prems" have ok1: "cursors_ok (s\<lparr>r := r s + 1\<rparr>)"
      by (simp add: cursors_ok_def)
    show ?thesis
    proof (cases "sint (buf s (unat (r s mod 128))) = Ctrl_D \<or> sint (buf s (unat (r s mod 128))) = NL")
      case True
      with \<open>0 < n \<and> r s \<noteq> w s\<close> ok1 "1.prems" show ?thesis
        by (subst consoleread_loop.simps) (auto simp add: Let_def)
    next
      case False
      with \<open>0 < n \<and> r s \<noteq> w s\<close> "1.IH" [OF _ _ refl refl _ _ ok1] show ?thesis
        by (subst consoleread_loop.simps) (simp add: Let_def)
    qed
  qed
qed

lemma cursors_ok_edit_codes:
  assumes "cursors_ok s" and "edit_codes cs s = Inr (s', out)" and "Ctrl_U \<notin> set cs"
  shows "cursors_ok s'"
  using assms
proof (induction cs arbitrary: s out)
  case Nil
  then show ?case
    by simp
next
  case (Cons c cs)
  show ?case
  proof (cases "c < 0")
    case True
    with Cons.prems show ?thesis
      by simp
  next
    case False
    with Cons.prems(2) obtain s1 out1 out2 where one: "consoleintr_step c s = Inr (s1, out1)"
      and more: "edit_codes cs s1 = Inr (s', out2)"
      by (auto split: sum.splits prod.splits)
    from Cons.prems(3) have "c \<noteq> Ctrl_U \<or> e s = max_idx s"
      by simp
    with Cons.prems(1) one have "cursors_ok s1"
      by (rule cursors_ok_step)
    from Cons.IH [OF this more] Cons.prems(3) show ?thesis
      by simp
  qed
qed

subsection \<open>The bytes of the line being edited\<close>

text \<open>A code from 0 to 255, which is what the keyboard and the serial line
  deliver, leaves no EOF or newline byte inside the line being edited when the
  cursors satisfy their invariant: such a code releases the line at once. The
  cursors keep their invariant except through kill-line with the cursor inside
  the line, which takes \<open>e\<close> below \<open>w\<close>; an insertion after that moves released
  cells into the line.\<close>

lemma line_clean_released: "w s = max_idx s \<Longrightarrow> line_clean s"
  by (auto simp add: line_clean_def)

lemma byte_of_code:
  assumes "0 \<le> c" and "c < 256"
  shows "((word_of_int c :: 8 word) = 4) = (c = 4)" and "((word_of_int c :: 8 word) = 10) = (c = 10)"
proof -
  from assms have u: "uint (word_of_int c :: 8 word) = c"
    by (simp add: uint_word_of_int take_bit_int_eq_self)
  show "((word_of_int c :: 8 word) = 4) = (c = 4)"
  proof
    assume "(word_of_int c :: 8 word) = 4"
    then have "uint (word_of_int c :: 8 word) = uint (4 :: 8 word)"
      by simp
    with u show "c = 4"
      by simp
  next
    assume "c = 4"
    then show "(word_of_int c :: 8 word) = 4"
      by simp
  qed
  show "((word_of_int c :: 8 word) = 10) = (c = 10)"
  proof
    assume "(word_of_int c :: 8 word) = 10"
    then have "uint (word_of_int c :: 8 word) = uint (10 :: 8 word)"
      by simp
    with u show "c = 10"
      by simp
  next
    assume "c = 10"
    then show "(word_of_int c :: 8 word) = 10"
      by simp
  qed
qed

lemma line_clean_kill_line:
  assumes "line_clean s" and "unat (w s) \<le> unat (max_idx s)"
  shows "line_clean (fst (kill_line s out))"
  using assms
proof (induction s out rule: kill_line.induct)
  case (1 s out)
  show ?case
  proof (cases "max_idx s \<noteq> w s \<and> sint (buf s (unat ((max_idx s - 1) mod 128))) \<noteq> NL")
    case True
    let ?s = "s\<lparr>max_idx := max_idx s - 1, e := e s - 1\<rparr>"
    from True "1.prems" have lt: "unat (w s) < unat (max_idx s)"
      by (simp add: word_neq_less)
    then have m1: "unat (max_idx s - 1) = unat (max_idx s) - 1"
      by (rule unat_dec)
    with lt "1.prems" have "line_clean ?s" and "unat (w ?s) \<le> unat (max_idx ?s)"
      by (auto simp add: line_clean_def)
    from "1.IH" [OF True this] True show ?thesis
      by (subst kill_line.simps) simp
  next
    case False
    with "1.prems" show ?thesis
      by (subst kill_line.simps) auto
  qed
qed

lemma memmove_buf_cell:
  "memmove_buf dst src n b = Inr b' \<Longrightarrow>
   b' i = (if dst \<le> i \<and> i < dst + n then b (src + (i - dst)) else b i)"
  by (auto simp add: memmove_buf_def split: if_splits)

lemma line_clean_backspace:
  assumes ok: "cursors_ok s" and cl: "line_clean s" and ne: "e s \<noteq> w s"
    and mv: "memmove_buf (unat (e s - 1)) (unat (e s - 1) + 1)
                  (unat ((max_idx s - 1) - (e s - 1))) (buf s) = Inr b"
  shows "line_clean (s\<lparr>max_idx := max_idx s - 1, e := e s - 1, buf := b\<rparr>)"
proof -
  have le: "unat (w s) \<le> unat (e s)" "unat (e s) \<le> unat (max_idx s)"
    using ok by (simp_all add: cursors_ok_def)
  from ne le have lt: "unat (w s) < unat (e s)"
    by (simp add: word_neq_less)
  then have e1: "unat (e s - 1) = unat (e s) - 1"
    by (rule unat_dec)
  from lt le have "unat (w s) < unat (max_idx s)"
    by simp
  then have m1: "unat (max_idx s - 1) = unat (max_idx s) - 1"
    by (rule unat_dec)
  have "(max_idx s - 1) - (e s - 1) = max_idx s - e s"
    by simp
  moreover have "unat (max_idx s - e s) = unat (max_idx s) - unat (e s)"
    using le by (simp add: unat_sub word_le_nat_alt)
  ultimately have n: "unat ((max_idx s - 1) - (e s - 1)) = unat (max_idx s) - unat (e s)"
    by simp
  have cell: "b i \<noteq> 4 \<and> b i \<noteq> 10" if "unat (w s) \<le> i" and "i < unat (max_idx s) - 1" for i
  proof -
    note at = memmove_buf_cell [OF mv, of i, unfolded n e1]
    show ?thesis
    proof (cases "unat (e s) - 1 \<le> i")
      case True
      with that lt le at have "b i = buf s (i + 1)"
        by auto
      moreover from that lt have "unat (w s) \<le> i + 1 \<and> i + 1 < unat (max_idx s)"
        by auto
      ultimately show ?thesis
        using cl by (simp add: line_clean_def)
    next
      case False
      with at have "b i = buf s i"
        by simp
      with cl that show ?thesis
        by (simp add: line_clean_def)
    qed
  qed
  then show ?thesis
    by (simp add: line_clean_def m1)
qed

lemma line_clean_insert:
  assumes ok: "cursors_ok s" and cl: "line_clean s" and room: "max_idx s < 128"
    and mv: "memmove_buf (unat (e s) + 1) (unat (e s)) (unat (max_idx s - e s)) (buf s) = Inr b"
    and byte: "x \<noteq> 4 \<and> x \<noteq> 10"
  shows "line_clean (s\<lparr>buf := b(unat (e s mod 128) := x), e := e s + 1, max_idx := max_idx s + 1\<rparr>)"
proof -
  have le: "unat (w s) \<le> unat (e s)" "unat (e s) \<le> unat (max_idx s)"
    using ok by (simp_all add: cursors_ok_def)
  from room have m: "unat (max_idx s) < 128"
    by (simp add: word_less_nat_alt)
  then have m1: "unat (max_idx s + 1) = unat (max_idx s) + 1"
    by (rule unat_inc)
  from m le have md: "unat (e s mod 128) = unat (e s)"
    by (simp add: unat_mod)
  have n: "unat (max_idx s - e s) = unat (max_idx s) - unat (e s)"
    using le by (simp add: unat_sub word_le_nat_alt)
  have cell: "(b(unat (e s) := x)) i \<noteq> 4 \<and> (b(unat (e s) := x)) i \<noteq> 10"
    if "unat (w s) \<le> i" and "i < unat (max_idx s) + 1" for i
  proof (cases "i = unat (e s)")
    case True
    with byte show ?thesis
      by simp
  next
    case False
    note at = memmove_buf_cell [OF mv, of i, unfolded n]
    show ?thesis
    proof (cases "unat (e s) + 1 \<le> i")
      case True
      with that le at have "b i = buf s (i - 1)"
        by auto
      moreover from that True le have "unat (w s) \<le> i - 1 \<and> i - 1 < unat (max_idx s)"
        by auto
      ultimately show ?thesis
        using cl False by (simp add: line_clean_def)
    next
      case below: False
      with at have "b i = buf s i"
        by simp
      moreover from below False le have "i < unat (max_idx s)"
        by simp
      ultimately show ?thesis
        using cl that False by (simp add: line_clean_def)
    qed
  qed
  then show ?thesis
    by (simp add: line_clean_def m1 md)
qed


lemma line_clean_default:
  assumes ok: "cursors_ok s" and cl: "line_clean s" and c: "0 \<le> c" "c < 256"
    and st: "default_input c s = Inr (s', out)"
  shows "line_clean s'"
proof (cases "c \<noteq> 0 \<and> max_idx s < 128")
  case False
  with st cl show ?thesis
    by (auto simp add: default_input_def)
next
  case True
  define c' where "c' = (if c = CR then NL else c)"
  show ?thesis
  proof (cases "c' = NL")
    case nl: True
    with st True have "w s' = max_idx s'"
      by (auto simp add: default_input_def c'_def)
    then show ?thesis
      by (rule line_clean_released)
  next
    case other: False
    show ?thesis
    proof (cases "memmove_buf (unat (e s) + 1) (unat (e s)) (unat (max_idx s - e s)) (buf s)")
      case (Inl err)
      with st True other show ?thesis
        by (simp add: default_input_def c'_def Let_def)
    next
      case (Inr b)
      let ?s1 = "s\<lparr>buf := b(unat (e s mod 128) := word_of_int c'), e := e s + 1,
          max_idx := max_idx s + 1\<rparr>"
      note st' = st [unfolded default_input_def Let_def, folded c'_def]
      from st' True other Inr have s': "s' = (if c' = Ctrl_D \<or> max_idx ?s1 = r ?s1 + 128
          then ?s1\<lparr>w := max_idx ?s1, e := max_idx ?s1\<rparr> else ?s1)"
        by (simp del: input.simps split: if_splits)
      show ?thesis
      proof (cases "c' = Ctrl_D \<or> max_idx ?s1 = r ?s1 + 128")
        case True
        with s' have "w s' = max_idx s'"
          by simp
        then show ?thesis
          by (rule line_clean_released)
      next
        case False
        from c have c'r: "0 \<le> c'" "c' < 256"
          by (simp_all add: c'_def)
        from False other have "(word_of_int c' :: 8 word) \<noteq> 4 \<and> (word_of_int c' :: 8 word) \<noteq> 10"
          by (simp add: byte_of_code [OF c'r])
        with ok cl True Inr have "line_clean ?s1"
          by (intro line_clean_insert) simp_all
        with s' False show ?thesis
          by simp
      qed
    qed
  qed
qed

lemma line_clean_step:
  assumes ok: "cursors_ok s" and cl: "line_clean s" and c: "0 \<le> c" "c < 256"
    and st: "consoleintr_step c s = Inr (s', out)"
  shows "line_clean s'"
proof -
  consider (dump) "c = Ctrl_P" | (kill) "c = Ctrl_U" | (bs) "c = Ctrl_H \<or> c = DEL"
    | (updown) "c = UP \<or> c = DOWN" | (left) "c = LEFT" | (right) "c = RIGHT"
    | (dflt) "c \<noteq> Ctrl_P" "c \<noteq> Ctrl_U" "c \<noteq> Ctrl_H" "c \<noteq> DEL" "c \<noteq> UP" "c \<noteq> DOWN"
        "c \<noteq> LEFT" "c \<noteq> RIGHT"
    by blast
  then show ?thesis
  proof cases
    case dump
    with st cl show ?thesis
      by (simp add: consoleintr_step_def)
  next
    case kill
    from ok have "unat (w s) \<le> unat (max_idx s)"
      by (simp add: cursors_ok_def)
    from line_clean_kill_line [OF cl this, of "[]"] st kill show ?thesis
      by (simp add: consoleintr_step_def)
  next
    case bs
    show ?thesis
    proof (cases "e s = w s")
      case True
      with bs st cl show ?thesis
        by (auto simp add: consoleintr_step_def)
    next
      case False
      with bs st obtain b where
        mv: "memmove_buf (unat (e s - 1)) (unat (e s - 1) + 1)
                  (unat ((max_idx s - 1) - (e s - 1))) (buf s) = Inr b"
        and s': "s' = s\<lparr>max_idx := max_idx s - 1, e := e s - 1, buf := b\<rparr>"
        by (auto simp add: consoleintr_step_def split: sum.splits)
      from line_clean_backspace [OF ok cl False mv] s' show ?thesis
        by simp
    qed
  next
    case updown
    with st cl show ?thesis
      by (auto simp add: consoleintr_step_def)
  next
    case left
    with st cl show ?thesis
      by (auto simp add: consoleintr_step_def line_clean_def split: if_splits)
  next
    case right
    with st cl show ?thesis
      by (auto simp add: consoleintr_step_def line_clean_def split: if_splits)
  next
    case dflt
    with st have "default_input c s = Inr (s', out)"
      by (simp add: consoleintr_step_def)
    with ok cl c show ?thesis
      by (rule line_clean_default)
  qed
qed

text \<open>A read moves \<open>r\<close> alone.\<close>

lemma line_clean_read:
  assumes "line_clean s"
  shows "case consoleread_loop killed target n dst s of
           Return v d s' \<Rightarrow> line_clean s' | Sleep k d s' \<Rightarrow> line_clean s'"
  using assms
proof (induction killed target n dst s rule: consoleread_loop.induct)
  case (1 killed target n dst s)
  have cl1: "line_clean (s\<lparr>r := r s + 1\<rparr>)" and cl2: "line_clean (s\<lparr>r := r s + 1 - 1\<rparr>)"
    using "1.prems" by (simp_all add: line_clean_def)
  show ?case
  proof (cases "0 < n \<and> r s \<noteq> w s")
    case False
    with "1.prems" show ?thesis
      by (subst consoleread_loop.simps) auto
  next
    case True
    show ?thesis
    proof (cases "sint (buf s (unat (r s mod 128))) = Ctrl_D \<or> sint (buf s (unat (r s mod 128))) = NL")
      case True
      with \<open>0 < n \<and> r s \<noteq> w s\<close> cl1 cl2 "1.prems" show ?thesis
        by (subst consoleread_loop.simps) (auto simp add: Let_def)
    next
      case False
      with \<open>0 < n \<and> r s \<noteq> w s\<close> "1.IH" [OF _ _ refl refl _ _ cl1] show ?thesis
        by (subst consoleread_loop.simps) (simp add: Let_def)
    qed
  qed
qed

lemma editor_invariants:
  assumes "cursors_ok s" and "line_clean s" and "edit_codes cs s = Inr (s', out)"
    and "\<forall>c\<in>set cs. c < 256" and "kills_at_end cs s"
  shows "cursors_ok s' \<and> line_clean s'"
  using assms
proof (induction cs arbitrary: s out)
  case Nil
  then show ?case
    by simp
next
  case (Cons c cs)
  show ?case
  proof (cases "c < 0")
    case True
    with Cons.prems show ?thesis
      by simp
  next
    case False
    with Cons.prems(3) obtain s1 out1 out2 where one: "consoleintr_step c s = Inr (s1, out1)"
      and more: "edit_codes cs s1 = Inr (s', out2)"
      by (auto split: sum.splits prod.splits)
    from False Cons.prems(4) have c: "0 \<le> c" "c < 256"
      by simp_all
    from False Cons.prems(5) one have guard: "c \<noteq> Ctrl_U \<or> e s = max_idx s"
      and run: "kills_at_end cs s1"
      by (auto split: if_splits)
    have "cursors_ok s1"
      using Cons.prems(1) one guard by (rule cursors_ok_step)
    moreover have "line_clean s1"
      using Cons.prems(1,2) c one by (rule line_clean_step)
    moreover from Cons.prems(4) have "\<forall>c\<in>set cs. c < 256"
      by simp
    ultimately show ?thesis
      using more run by (intro Cons.IH)
  qed
qed

lemma kills_at_end_no_kill: "Ctrl_U \<notin> set cs \<Longrightarrow> kills_at_end cs s"
  by (induction cs arbitrary: s) (auto split: sum.splits)


lemma input0_invariants: "cursors_ok input0 \<and> line_clean input0"
  by (simp add: cursors_ok_def line_clean_def input0_def)

subsection \<open>Typing a full line\<close>

lemma edit_codes_append:
  "\<forall>c\<in>set xs. 0 \<le> c \<Longrightarrow>
   edit_codes (xs @ ys) s =
    (case edit_codes xs s of
       Inl err \<Rightarrow> Inl err
     | Inr (s1, out1) \<Rightarrow>
         (case edit_codes ys s1 of
            Inl err \<Rightarrow> Inl err
          | Inr (s2, out2) \<Rightarrow> Inr (s2, out1 @ out2)))"
  by (induction xs arbitrary: s) (auto split: sum.splits prod.splits)

lemma consputs_append:
  "consputs (xs @ ys) k = (case consputs xs k of Inl err \<Rightarrow> Inl err | Inr k' \<Rightarrow> consputs ys k')"
  by (induction xs arbitrary: k) (simp_all split: sum.splits)

text \<open>Whenever the handler returns, the buffer it leaves and the echo it made are
  those of \<^verbatim>\<open>edit_codes\<close>.\<close>

lemma consoleintr_edit_codes:
  "consoleintr cs s k dump = Inr (s', k', dump') \<Longrightarrow>
   \<exists>out. edit_codes cs s = Inr (s', out) \<and> consputs out k = Inr k'"
proof (induction cs arbitrary: s k dump)
  case Nil
  then show ?case
    by simp
next
  case (Cons c cs)
  show ?case
  proof (cases "c < 0")
    case True
    with Cons.prems show ?thesis
      by simp
  next
    case False
    with Cons.prems obtain s1 out1 k1 where one: "consoleintr_step c s = Inr (s1, out1)"
      and echo: "consputs out1 k = Inr k1"
      and more: "consoleintr cs s1 k1 (dump \<or> c = Ctrl_P) = Inr (s', k', dump')"
      by (auto split: sum.splits prod.splits)
    from Cons.IH [OF more] obtain out2 where "edit_codes cs s1 = Inr (s', out2)"
      and "consputs out2 k1 = Inr k'"
      by blast
    with False one echo show ?thesis
      by (simp add: consputs_append)
  qed
qed

lemma unat_small: "n < 2 ^ 32 \<Longrightarrow> unat (of_nat n :: 32 word) = n"
  by (simp add: unat_of_nat)

lemma type_one_a:
  assumes "n < 127"
  shows "consoleintr_step 97 (typed_a n) = Inr (typed_a (Suc n), [97])"
proof -
  from assms have u: "unat (of_nat n :: 32 word) = n"
    by (simp add: unat_of_nat)
  from assms have lt: "(of_nat n :: 32 word) < 128"
    by (simp add: word_less_nat_alt u)
  have md: "unat ((of_nat n :: 32 word) mod 128) = n"
    using assms by (simp add: unat_mod u)
  have ne: "(1 + of_nat n :: 32 word) \<noteq> 128"
  proof
    assume "(1 + of_nat n :: 32 word) = 128"
    then have "unat (of_nat (Suc n) :: 32 word) = unat (128 :: 32 word)"
      by simp
    with assms show False
      by (simp add: unat_of_nat del: of_nat_Suc)
  qed
  have cells: "(\<lambda>i::nat. if i < n then 97 else 0)(n := 97 :: 8 word) = (\<lambda>i. if i < Suc n then 97 else 0)"
    by (auto simp add: fun_eq_iff)
  show ?thesis
    using lt ne
    by (simp add: consoleintr_step_def default_input_def memmove_buf_def typed_a_def u md cells)
qed

lemma type_many_a:
  "n \<le> 127 \<Longrightarrow> edit_codes (replicate n 97) input0 = Inr (typed_a n, replicate n 97)"
proof (induction n)
  case 0
  then show ?case
    by (simp add: typed_a_def input0_def)
next
  case (Suc n)
  then have "edit_codes (replicate n 97) input0 = Inr (typed_a n, replicate n 97)" and "n < 127"
    by simp_all
  moreover have "replicate (Suc n) (97::int) = replicate n 97 @ [97]"
    by (simp add: replicate_append_same)
  ultimately show ?case
    by (simp add: edit_codes_append type_one_a)
qed

lemma type_newline:
  "consoleintr_step NL (typed_a 127) = Inr (full_line, [NL])"
proof -
  have cells: "(\<lambda>i::nat. if i < 127 then 97 else 0)(127 := 10 :: 8 word)
      = (\<lambda>i. if i < 127 then 97 else if i = 127 then 10 else 0)"
    by (auto simp add: fun_eq_iff)
  show ?thesis
    by (simp add: consoleintr_step_def default_input_def typed_a_def full_line_def cells)
qed

lemma type_full_line:
  "edit_codes (replicate 127 97 @ [NL]) input0 = Inr (full_line, replicate 127 97 @ [NL])"
  by (simp add: edit_codes_append type_many_a type_newline)

subsection \<open>The claims on the editor\<close>

text \<open>
  Claim C8. In \<^verbatim>\<open>consoleintr\<close>, a backspace code (\<^verbatim>\<open>C('H')\<close> or \<^verbatim>\<open>0x7f\<close>) when
  \<open>e = w\<close> leaves the buffer and the four cursors as they are and echoes nothing;
  so does a left arrow when \<open>e = w\<close> and a right arrow when \<open>e = max\<close>. The first
  line of each part is one turn of the loop, the second the whole handler on that
  one code, with the console it echoes to.
\<close>

theorem edit_noop_at_line_ends:
  "(e s = w s \<longrightarrow>
      consoleintr_step Ctrl_H s = Inr (s, []) \<and> consoleintr_step DEL s = Inr (s, [])
      \<and> consoleintr_step LEFT s = Inr (s, [])
      \<and> consoleintr [Ctrl_H] s k d = Inr (s, k, d) \<and> consoleintr [DEL] s k d = Inr (s, k, d)
      \<and> consoleintr [LEFT] s k d = Inr (s, k, d))
   \<and> (e s = max_idx s \<longrightarrow>
      consoleintr_step RIGHT s = Inr (s, []) \<and> consoleintr [RIGHT] s k d = Inr (s, k, d))"
  by (simp add: consoleintr_step_def)

theorem edit_noop_at_line_ends_witness:
  "e input0 = w input0 \<and> e input0 = max_idx input0
   \<and> consoleintr_step Ctrl_H input0 = Inr (input0, [])
   \<and> consoleintr [LEFT] input0 blank_console False = Inr (input0, blank_console, False)
   \<and> consoleintr [RIGHT] input0 blank_console False = Inr (input0, blank_console, False)"
  using edit_noop_at_line_ends [of input0 blank_console False]
  by (simp add: input0_def)

text \<open>
  Claim C1 says that the cursors satisfy \<open>r \<le> w \<le> e \<le> max \<le> r + CAP\<close> after every
  editor operation, kill-line among them. The kill-line loop decrements \<open>e\<close>
  together with \<open>max\<close> without looking at \<open>e\<close>: typing \<^verbatim>\<open>a\<close>, moving left, and
  killing the line takes \<open>e\<close> from 0 to \<open>2^32 - 1\<close>, above \<open>max = 0\<close>.
\<close>

theorem kill_line_after_left_breaks_cursors:
  "edit_codes [97, LEFT, Ctrl_U] input0 =
     Inr (input0\<lparr>buf := (buf input0)(0 := 97), e := 4294967295\<rparr>, [97, LEFT, BACKSPACE])
   \<and> cursors_ok input0
   \<and> \<not> cursors_ok (input0\<lparr>buf := (buf input0)(0 := 97), e := 4294967295\<rparr>)"
  by (simp add: consoleintr_step_def default_input_def memmove_buf_def input0_def
      cursors_ok_def kill_line.simps)

section \<open>Reading\<close>

lemma pending_empty: "r s = w s \<Longrightarrow> pending s = []"
  by (simp add: pending_def)

lemma pending_step:
  assumes "r s \<noteq> w s"
  shows "pending s = buf s (unat (r s mod 128)) # pending (s\<lparr>r := r s + 1\<rparr>)"
proof -
  from assms have "w s - r s \<noteq> 0"
    by simp
  then have "unat (w s - r s - 1) = unat (w s - r s) - 1" and "0 < unat (w s - r s)"
    by (simp_all add: unat_minus_one unat_gt_0)
  moreover have "unat (w s - (r s + 1)) = unat (w s - r s - 1)"
    by (simp only: diff_diff_eq)
  ultimately have len: "unat (w s - r s) = Suc (unat (w s - (r s + 1)))"
    by linarith
  have "[0..<Suc (unat (w s - (r s + 1)))] = 0 # map Suc [0..<unat (w s - (r s + 1))]"
    by (simp add: upt_conv_Cons map_Suc_upt del: upt_Suc)
  then show ?thesis
    by (simp add: pending_def len comp_def add.assoc del: upt_Suc)
qed

lemma sint_byte_eq: "(sint (x::8 word) = 4) = (x = 4)" "(sint (x::8 word) = 10) = (x = 10)"
proof -
  show "(sint x = 4) = (x = 4)"
  proof
    assume "sint x = 4"
    then have "word_of_int (sint x) = (word_of_int 4 :: 8 word)" by simp
    then show "x = 4" by simp
  next
    assume "x = 4" then show "sint x = 4" by simp
  qed
  show "(sint x = 10) = (x = 10)"
  proof
    assume "sint x = 10"
    then have "word_of_int (sint x) = (word_of_int 10 :: 8 word)" by simp
    then show "x = 10" by simp
  next
    assume "x = 10" then show "sint x = 10" by simp
  qed
qed

lemma read_loop_to_eof:
  assumes "pending s = xs @ 4 # rest"
    and "\<forall>x\<in>set xs. x \<noteq> 4 \<and> x \<noteq> 10"
    and "int (length xs) < n"
  shows "consoleread_loop killed target n dst s =
     Return (target - (n - int (length xs))) (dst @ xs)
       (if n - int (length xs) < target then s\<lparr>r := r s + of_nat (length xs)\<rparr>
        else s\<lparr>r := r s + of_nat (length xs) + 1\<rparr>)"
  using assms
proof (induction xs arbitrary: s n dst)
  case Nil
  then have ne: "r s \<noteq> w s"
    using pending_empty by fastforce
  with Nil have c: "buf s (unat (r s mod 128)) = 4"
    by (simp add: pending_step)
  from Nil ne c show ?case
    by (subst consoleread_loop.simps) (simp add: Let_def)
next
  case (Cons x xs)
  then have ne: "r s \<noteq> w s"
    using pending_empty by fastforce
  with Cons.prems have c: "buf s (unat (r s mod 128)) = x"
    and rest: "pending (s\<lparr>r := r s + 1\<rparr>) = xs @ 4 # rest"
    by (simp_all add: pending_step)
  from Cons.prems have x: "sint x \<noteq> 4" "sint x \<noteq> 10"
    by (simp_all add: sint_byte_eq)
  from Cons.prems have n: "int (length xs) < n - 1" "0 < n"
    by simp_all
  have clean: "\<forall>x\<in>set xs. x \<noteq> 4 \<and> x \<noteq> 10"
    using Cons.prems by simp
  have step: "consoleread_loop killed target n dst s =
      consoleread_loop killed target (n - 1) (dst @ [x]) (s\<lparr>r := r s + 1\<rparr>)"
    using ne c x n by (subst consoleread_loop.simps) (simp add: Let_def)
  show ?case
    unfolding step Cons.IH [OF rest clean n(1)]
    by (simp add: algebra_simps)
qed

lemma pending_advance:
  "pending s = xs @ ys \<Longrightarrow> pending (s\<lparr>r := r s + of_nat (length xs)\<rparr>) = ys"
proof (induction xs arbitrary: s)
  case Nil
  then show ?case by simp
next
  case (Cons x xs)
  then have ne: "r s \<noteq> w s"
    using pending_empty by fastforce
  with Cons.prems have "pending (s\<lparr>r := r s + 1\<rparr>) = xs @ ys"
    by (simp add: pending_step)
  from Cons.IH [OF this] show ?case
    by (simp add: algebra_simps)
qed

lemma read_loop_to_newline:
  assumes "pending s = xs @ 10 # rest"
    and "\<forall>x\<in>set xs. x \<noteq> 4 \<and> x \<noteq> 10"
    and "int (length xs) < n"
  shows "consoleread_loop killed target n dst s =
     Return (target - (n - int (length xs) - 1)) (dst @ xs @ [10])
       (s\<lparr>r := r s + of_nat (length xs) + 1\<rparr>)"
  using assms
proof (induction xs arbitrary: s n dst)
  case Nil
  then have ne: "r s \<noteq> w s"
    using pending_empty by fastforce
  with Nil have c: "buf s (unat (r s mod 128)) = 10"
    by (simp add: pending_step)
  from Nil ne c show ?case
    by (subst consoleread_loop.simps) (simp add: Let_def)
next
  case (Cons x xs)
  then have ne: "r s \<noteq> w s"
    using pending_empty by fastforce
  with Cons.prems have c: "buf s (unat (r s mod 128)) = x"
    and rest: "pending (s\<lparr>r := r s + 1\<rparr>) = xs @ 10 # rest"
    by (simp_all add: pending_step)
  from Cons.prems have x: "sint x \<noteq> 4" "sint x \<noteq> 10"
    by (simp_all add: sint_byte_eq)
  from Cons.prems have n: "int (length xs) < n - 1" "0 < n"
    by simp_all
  have clean: "\<forall>x\<in>set xs. x \<noteq> 4 \<and> x \<noteq> 10"
    using Cons.prems by simp
  have step: "consoleread_loop killed target n dst s =
      consoleread_loop killed target (n - 1) (dst @ [x]) (s\<lparr>r := r s + 1\<rparr>)"
    using ne c x n by (subst consoleread_loop.simps) (simp add: Let_def)
  show ?case
    unfolding step Cons.IH [OF rest clean n(1)]
    by (simp add: algebra_simps)
qed

lemma pending_linear:
  assumes "unat (r s) \<le> unat (w s)" and "unat (w s) \<le> 128"
  shows "pending s = map (buf s) [unat (r s)..<unat (w s)]"
proof -
  have len: "unat (w s - r s) = unat (w s) - unat (r s)"
    using assms(1) by (simp add: unat_sub word_le_nat_alt)
  have idx: "unat ((r s + of_nat i) mod 128) = unat (r s) + i" if "i < unat (w s) - unat (r s)" for i
  proof -
    from that assms have small: "unat (r s) + i < 128"
      by simp
    then have "unat (r s + of_nat i) = unat (r s) + i"
      by (simp add: unat_word_ariths unat_of_nat)
    with small show ?thesis
      by (simp add: unat_mod)
  qed
  have "pending s = map (\<lambda>i. buf s (unat (r s) + i)) [0..<unat (w s) - unat (r s)]"
    unfolding pending_def len by (rule map_cong) (simp_all add: idx)
  also have "\<dots> = map (buf s) (map (\<lambda>i. i + unat (r s)) [0..<unat (w s) - unat (r s)])"
    by (simp add: comp_def add.commute)
  also have "map (\<lambda>i. i + unat (r s)) [0..<unat (w s) - unat (r s)] = [unat (r s)..<unat (w s)]"
    using assms(1) by (simp add: map_add_upt)
  finally show ?thesis .
qed


text \<open>After a newline has been typed and read, the codes \<^verbatim>\<open>a\<close>, left arrow, Ctrl-U
  and \<^verbatim>\<open>x\<close> leave the cursors within their invariant again, with the newline that
  was read as a cell of the line being edited.\<close>

lemma kill_line_inside_line_spoils_line:
  "edit_codes [NL] input0 = Inr (\<lparr>buf = (\<lambda>i. 0)(0 := 10), r = 0, w = 1, e = 1, max_idx = 1\<rparr>, [NL])
   \<and> consoleread False 100 \<lparr>buf = (\<lambda>i. 0)(0 := 10), r = 0, w = 1, e = 1, max_idx = 1\<rparr>
       = Return 1 [10] \<lparr>buf = (\<lambda>i. 0)(0 := 10), r = 1, w = 1, e = 1, max_idx = 1\<rparr>
   \<and> edit_codes [97, LEFT, Ctrl_U, 120] \<lparr>buf = (\<lambda>i. 0)(0 := 10), r = 1, w = 1, e = 1, max_idx = 1\<rparr>
       = Inr (\<lparr>buf = (\<lambda>i. 0)(0 := 120, 1 := 10), r = 1, w = 1, e = 1, max_idx = 2\<rparr>,
              [97, LEFT, BACKSPACE, 120])
   \<and> cursors_ok \<lparr>buf = (\<lambda>i. 0)(0 := 120, 1 := 10), r = 1, w = 1, e = 1, max_idx = 2\<rparr>
   \<and> \<not> line_clean \<lparr>buf = (\<lambda>i. 0)(0 := 120, 1 := 10), r = 1, w = 1, e = 1, max_idx = 2\<rparr>
   \<and> \<not> kills_at_end [97, LEFT, Ctrl_U, 120] \<lparr>buf = (\<lambda>i. 0)(0 := 10), r = 1, w = 1, e = 1, max_idx = 1\<rparr>"
  by (simp add: consoleintr_step_def default_input_def memmove_buf_def input0_def
      consoleread_def consoleread_loop.simps kill_line.simps cursors_ok_def line_clean_def)
    (auto simp add: fun_eq_iff)

text \<open>
  Claim C3. Let the unread released bytes be \<open>xs\<close>, then the EOF code
  \<^verbatim>\<open>C('D')\<close>, then anything, where \<open>xs\<close> holds neither EOF nor newline and is
  shorter than the count asked for. If \<open>xs\<close> is empty, EOF is the first character
  the call consumes: the call returns 0, stores nothing, and \<open>r\<close> has passed the
  marker. If \<open>xs\<close> is not empty, the call returns the bytes \<open>xs\<close> and their
  number, \<open>r\<close> is pushed back onto the marker, which is thus the next pending
  byte, and the next call, for any positive count, returns 0 and consumes it.
\<close>

theorem read_stops_at_eof:
  assumes "pending s = xs @ 4 # rest"
    and "\<forall>x\<in>set xs. x \<noteq> 4 \<and> x \<noteq> 10"
    and "int (length xs) < n" and "0 < m"
  shows "(xs = [] \<longrightarrow> consoleread killed n s = Return 0 [] (s\<lparr>r := r s + 1\<rparr>))
    \<and> (xs \<noteq> [] \<longrightarrow>
          consoleread killed n s
            = Return (int (length xs)) xs (s\<lparr>r := r s + of_nat (length xs)\<rparr>)
          \<and> pending (s\<lparr>r := r s + of_nat (length xs)\<rparr>) = 4 # rest
          \<and> consoleread killed m (s\<lparr>r := r s + of_nat (length xs)\<rparr>)
            = Return 0 [] (s\<lparr>r := r s + of_nat (length xs) + 1\<rparr>))"
proof -
  have first: "consoleread killed n s =
     Return (int (length xs)) xs
       (if xs \<noteq> [] then s\<lparr>r := r s + of_nat (length xs)\<rparr>
        else s\<lparr>r := r s + of_nat (length xs) + 1\<rparr>)"
    unfolding consoleread_def read_loop_to_eof [OF assms(1-3)]
    by simp
  have p2: "pending (s\<lparr>r := r s + of_nat (length xs)\<rparr>) = [] @ 4 # rest"
    using pending_advance [OF assms(1)] by simp
  have second: "consoleread killed m (s\<lparr>r := r s + of_nat (length xs)\<rparr>)
            = Return 0 [] (s\<lparr>r := r s + of_nat (length xs) + 1\<rparr>)"
    unfolding consoleread_def using read_loop_to_eof [OF p2, of m killed m "[]"] assms(4)
    by simp
  from first second p2 show ?thesis
    by simp
qed

theorem read_stops_at_eof_witness:
  "pending \<lparr>buf = (\<lambda>i. 0)(0 := 97, 1 := 4), r = 0, w = 2, e = 2, max_idx = 2\<rparr> = [97] @ 4 # []
   \<and> consoleread False 5 \<lparr>buf = (\<lambda>i. 0)(0 := 97, 1 := 4), r = 0, w = 2, e = 2, max_idx = 2\<rparr>
       = Return 1 [97] \<lparr>buf = (\<lambda>i. 0)(0 := 97, 1 := 4), r = 1, w = 2, e = 2, max_idx = 2\<rparr>
   \<and> consoleread False 5 \<lparr>buf = (\<lambda>i. 0)(0 := 97, 1 := 4), r = 1, w = 2, e = 2, max_idx = 2\<rparr>
       = Return 0 [] \<lparr>buf = (\<lambda>i. 0)(0 := 97, 1 := 4), r = 2, w = 2, e = 2, max_idx = 2\<rparr>
   \<and> pending \<lparr>buf = (\<lambda>i. 0)(0 := 4), r = 0, w = 1, e = 1, max_idx = 1\<rparr> = [] @ 4 # []
   \<and> consoleread False 5 \<lparr>buf = (\<lambda>i. 0)(0 := 4), r = 0, w = 1, e = 1, max_idx = 1\<rparr>
       = Return 0 [] \<lparr>buf = (\<lambda>i. 0)(0 := 4), r = 1, w = 1, e = 1, max_idx = 1\<rparr>"
proof -
  let ?s = "\<lparr>buf = (\<lambda>i. 0)(0 := 97, 1 := 4), r = 0, w = 2, e = 2, max_idx = 2\<rparr>"
  let ?t = "\<lparr>buf = (\<lambda>i. 0)(0 := 4), r = 0, w = 1, e = 1, max_idx = 1\<rparr>"
  have p: "pending ?s = [97] @ 4 # []"
    by (simp add: pending_def upt_rec)
  have q: "pending ?t = [] @ 4 # []"
    by (simp add: pending_def upt_rec)
  have c: "\<forall>x\<in>set [97 :: 8 word]. x \<noteq> 4 \<and> x \<noteq> 10"
    by simp
  have d: "\<forall>x\<in>set ([] :: 8 word list). x \<noteq> 4 \<and> x \<noteq> 10"
    by simp
  show ?thesis
    using read_stops_at_eof [OF p c, of 5 5 False] read_stops_at_eof [OF q d, of 5 5 False] p q
    by simp
qed


text \<open>One code for which the loop body makes one \<^verbatim>\<open>consputc\<close> call.\<close>

lemma consoleintr_one:
  assumes "0 \<le> c" and "consoleintr_step c s = Inr (s', [c'])"
  shows "consoleintr [c] s k d =
     (case consputc c' k of Inl err \<Rightarrow> Inl err | Inr k' \<Rightarrow> Inr (s', k', d \<or> c = Ctrl_P))"
  using assms by (simp split: sum.splits)

text \<open>
  Claim C4, as amended. In a buffer whose cursors satisfy their invariant, a
  newline (or a carriage return, which is turned into one) that \<^verbatim>\<open>consoleintr\<close>
  accepts (\<open>max < 128\<close>) is stored at \<open>max\<close>, and \<open>w\<close> and \<open>e\<close> are set to the new
  \<open>max\<close>: the pending bytes grow by exactly the cells from the old \<open>w\<close> up to and
  including the newline, and the newline is echoed. If nothing released earlier
  was still unread (\<open>r\<close> equal to the old \<open>w\<close>) and the line holds no EOF or
  newline byte before its end, a read for at least that many bytes returns
  exactly them, the newline last, and returns their number.
\<close>

theorem newline_releases_line:
  assumes "cursors_ok s" and "max_idx s < 128"
  shows "consoleintr [NL] s k d =
      (case consputc NL k of
         Inl err \<Rightarrow> Inl err
       | Inr k' \<Rightarrow>
           Inr (s\<lparr>buf := (buf s)(unat (max_idx s) := 10), max_idx := max_idx s + 1,
                  w := max_idx s + 1, e := max_idx s + 1\<rparr>, k', d))
    \<and> consoleintr [CR] s k d = consoleintr [NL] s k d
    \<and> consoleintr_step NL s =
      Inr (s\<lparr>buf := (buf s)(unat (max_idx s) := 10), max_idx := max_idx s + 1,
             w := max_idx s + 1, e := max_idx s + 1\<rparr>, [NL])
    \<and> consoleintr_step CR s = consoleintr_step NL s
    \<and> pending (s\<lparr>buf := (buf s)(unat (max_idx s) := 10), max_idx := max_idx s + 1,
             w := max_idx s + 1, e := max_idx s + 1\<rparr>)
        = pending s @ map (buf s) [unat (w s)..<unat (max_idx s)] @ [10]
    \<and> (r s = w s
         \<and> line_clean s
         \<and> int (unat (max_idx s) - unat (w s)) + 1 \<le> n \<longrightarrow>
       consoleread killed n (s\<lparr>buf := (buf s)(unat (max_idx s) := 10), max_idx := max_idx s + 1,
             w := max_idx s + 1, e := max_idx s + 1\<rparr>)
        = Return (int (unat (max_idx s) - unat (w s)) + 1)
            (map (buf s) [unat (w s)..<unat (max_idx s)] @ [10])
            (s\<lparr>buf := (buf s)(unat (max_idx s) := 10), max_idx := max_idx s + 1,
               w := max_idx s + 1, e := max_idx s + 1, r := max_idx s + 1\<rparr>))"
proof -
  let ?s' = "s\<lparr>buf := (buf s)(unat (max_idx s) := 10), max_idx := max_idx s + 1,
             w := max_idx s + 1, e := max_idx s + 1\<rparr>"
  let ?line = "map (buf s) [unat (w s)..<unat (max_idx s)]"
  from assms(2) have m: "unat (max_idx s) < 128"
    by (simp add: word_less_nat_alt)
  then have m1: "unat (max_idx s + 1) = unat (max_idx s) + 1"
    by (rule unat_inc)
  from assms(1) have rw: "unat (r s) \<le> unat (w s)" and wm: "unat (w s) \<le> unat (max_idx s)"
    by (simp_all add: cursors_ok_def)
  have modm: "unat (max_idx s mod 128) = unat (max_idx s)"
    using m by (simp add: unat_mod)
  have step: "consoleintr_step NL s = Inr (?s', [NL])"
    using assms(2) by (simp add: consoleintr_step_def default_input_def modm)
  have cr: "consoleintr_step CR s = consoleintr_step NL s"
    by (simp add: consoleintr_step_def default_input_def)
  have before: "pending s = map (buf s) [unat (r s)..<unat (w s)]"
    by (rule pending_linear) (use rw wm m in simp_all)
  have split: "[unat (r s)..<unat (max_idx s) + 1]
      = [unat (r s)..<unat (w s)] @ [unat (w s)..<unat (max_idx s)] @ [unat (max_idx s)]"
  proof -
    have "[unat (r s)..<unat (w s) + (unat (max_idx s) - unat (w s))]
        = [unat (r s)..<unat (w s)] @ [unat (w s)..<unat (w s) + (unat (max_idx s) - unat (w s))]"
      using rw by (rule upt_add_eq_append)
    with wm have "[unat (r s)..<unat (max_idx s)]
        = [unat (r s)..<unat (w s)] @ [unat (w s)..<unat (max_idx s)]"
      by simp
    moreover from rw wm have "unat (r s) \<le> unat (max_idx s)"
      by simp
    ultimately show ?thesis
      by simp
  qed
  have "pending ?s' = map (buf ?s') [unat (r ?s')..<unat (w ?s')]"
    by (rule pending_linear) (use rw wm m m1 in simp_all)
  also have "\<dots> = map (buf ?s') [unat (r s)..<unat (max_idx s) + 1]"
    by (simp add: m1)
  also have "\<dots> = pending s @ ?line @ [10]"
    unfolding split before using rw wm by simp
  finally have pend: "pending ?s' = pending s @ ?line @ [10]" .
  have rd: "consoleread killed n ?s' =
      Return (int (unat (max_idx s) - unat (w s)) + 1) (?line @ [10])
        (?s'\<lparr>r := max_idx s + 1\<rparr>)"
    if caught_up: "r s = w s"
      and clean: "line_clean s"
      and room: "int (unat (max_idx s) - unat (w s)) + 1 \<le> n"
  proof -
    from caught_up have "pending s = []"
      by (simp add: pending_def)
    with pend have p: "pending ?s' = ?line @ 10 # []"
      by simp
    have c: "\<forall>x\<in>set ?line. x \<noteq> 4 \<and> x \<noteq> 10"
      using clean by (auto simp add: line_clean_def)
    have l: "int (length ?line) < n"
      using room wm by simp
    have "r s + of_nat (unat (max_idx s) - unat (w s)) = max_idx s"
      using wm caught_up by (simp add: of_nat_diff)
    then show ?thesis
      unfolding consoleread_def read_loop_to_newline [OF p c l]
      by simp
  qed
  have handler: "consoleintr [NL] s k d =
      (case consputc NL k of Inl err \<Rightarrow> Inl err | Inr k' \<Rightarrow> Inr (?s', k', d))"
    using consoleintr_one [of NL s ?s' NL k d] step by (simp split: sum.splits)
  have "consoleintr [CR] s k d =
      (case consputc NL k of Inl err \<Rightarrow> Inl err | Inr k' \<Rightarrow> Inr (?s', k', d))"
    using consoleintr_one [of CR s ?s' NL k d] step cr by (simp split: sum.splits)
  with handler have handler_cr: "consoleintr [CR] s k d = consoleintr [NL] s k d"
    by simp
  from handler handler_cr step cr pend rd show ?thesis
    by simp
qed


theorem newline_releases_line_witness:
  "cursors_ok \<lparr>buf = (\<lambda>i. 0)(0 := 104, 1 := 105), r = 0, w = 0, e = 2, max_idx = 2\<rparr>
   \<and> line_clean \<lparr>buf = (\<lambda>i. 0)(0 := 104, 1 := 105), r = 0, w = 0, e = 2, max_idx = 2\<rparr>
   \<and> consoleintr [NL] \<lparr>buf = (\<lambda>i. 0)(0 := 104, 1 := 105), r = 0, w = 0, e = 2, max_idx = 2\<rparr>
        blank_console False
      = Inr (\<lparr>buf = (\<lambda>i. 0)(0 := 104, 1 := 105, 2 := 10), r = 0, w = 3, e = 3, max_idx = 3\<rparr>,
             blank_console\<lparr>uart := [NL], cursor_lo := 80\<rparr>, False)
   \<and> consoleread False 100 \<lparr>buf = (\<lambda>i. 0)(0 := 104, 1 := 105, 2 := 10), r = 0, w = 3, e = 3, max_idx = 3\<rparr>
      = Return 3 [104, 105, 10] \<lparr>buf = (\<lambda>i. 0)(0 := 104, 1 := 105, 2 := 10), r = 3, w = 3, e = 3, max_idx = 3\<rparr>"
proof -
  let ?s = "\<lparr>buf = (\<lambda>i. 0)(0 := 104, 1 := 105), r = 0, w = 0, e = 2, max_idx = 2\<rparr>"
  have a1: "cursors_ok ?s"
    by (simp add: cursors_ok_def)
  have a2: "max_idx ?s < 128"
    by simp
  have a3: "line_clean ?s"
    by (simp add: line_clean_def)
  have echo: "consputc NL blank_console = Inr (blank_console\<lparr>uart := [NL], cursor_lo := 80\<rparr>)"
    by (simp add: consputc_def uartputc_def cgaputc_def cga_edit_def get_pos_def
        set_pos_def scroll_due_def blank_console_def)
  show ?thesis
    using newline_releases_line [OF a1 a2, where n = 100 and killed = False
        and k = blank_console and d = False] a1 a3
    by (simp add: upt_rec echo)
qed

text \<open>Claim C4 as stated has the read return as many bytes as the newline
  released, whatever was pending. After \<^verbatim>\<open>a\<close>, newline, \<^verbatim>\<open>b\<close>, \<^verbatim>\<open>c\<close> with nothing read,
  a newline releases three bytes, and a read for 100 returns the two bytes of the
  first line.\<close>

theorem unread_line_counterexample:
  "(case consoleintr [97, NL, 98, 99] input0 blank_console False of
      Inl err \<Rightarrow> False
    | Inr (s, k, d) \<Rightarrow>
        s = \<lparr>buf = (\<lambda>i. 0)(0 := 97, 1 := 10, 2 := 98, 3 := 99), r = 0, w = 2, e = 4, max_idx = 4\<rparr>)
   \<and> cursors_ok \<lparr>buf = (\<lambda>i. 0)(0 := 97, 1 := 10, 2 := 98, 3 := 99), r = 0, w = 2, e = 4, max_idx = 4\<rparr>
   \<and> line_clean \<lparr>buf = (\<lambda>i. 0)(0 := 97, 1 := 10, 2 := 98, 3 := 99), r = 0, w = 2, e = 4, max_idx = 4\<rparr>
   \<and> consoleintr [NL]
        \<lparr>buf = (\<lambda>i. 0)(0 := 97, 1 := 10, 2 := 98, 3 := 99), r = 0, w = 2, e = 4, max_idx = 4\<rparr>
        blank_console False
       = Inr (\<lparr>buf = (\<lambda>i. 0)(0 := 97, 1 := 10, 2 := 98, 3 := 99, 4 := 10),
                r = 0, w = 5, e = 5, max_idx = 5\<rparr>,
              blank_console\<lparr>uart := [NL], cursor_lo := 80\<rparr>, False)
   \<and> consoleread False 100
        \<lparr>buf = (\<lambda>i. 0)(0 := 97, 1 := 10, 2 := 98, 3 := 99, 4 := 10), r = 0, w = 5, e = 5, max_idx = 5\<rparr>
       = Return 2 [97, 10]
          \<lparr>buf = (\<lambda>i. 0)(0 := 97, 1 := 10, 2 := 98, 3 := 99, 4 := 10), r = 2, w = 5, e = 5, max_idx = 5\<rparr>"
  by (simp add: consoleintr_step_def default_input_def memmove_buf_def input0_def
      consoleread_def consoleread_loop.simps cursors_ok_def line_clean_def
      consputc_def uartputc_def cgaputc_def cga_edit_def get_pos_def
      set_pos_def scroll_due_def blank_console_def)

text \<open>
  Claim C2 says that a non-zero code in the default case is accepted exactly when
  \<open>max < r + CAP\<close>, so that room freed by the reader can be typed into. Line 258
  tests \<^verbatim>\<open>input.max < INPUT_BUF\<close>, without \<open>r\<close>. Typing 127 letters and a newline
  into the empty buffer and reading the 128 bytes leaves \<open>r = w = e = max = 128\<close>;
  the next letter is then dropped, with no echo, although \<open>max < r + CAP\<close>.
\<close>

theorem typed_out_buffer_drops_input:
  "edit_codes (replicate 127 97 @ [NL]) input0 = Inr (full_line, replicate 127 97 @ [NL])
   \<and> consoleread False 128 full_line
       = Return 128 (replicate 127 97 @ [10]) (full_line\<lparr>r := 128\<rparr>)
   \<and> cursors_ok (full_line\<lparr>r := 128\<rparr>)
   \<and> max_idx (full_line\<lparr>r := 128\<rparr>) < r (full_line\<lparr>r := 128\<rparr>) + 128
   \<and> consoleintr_step 97 (full_line\<lparr>r := 128\<rparr>) = Inr (full_line\<lparr>r := 128\<rparr>, [])"
proof -
  have "map (buf full_line) [0..<127] = map (\<lambda>i. 97) [0..<127]"
    by (rule map_cong) (simp_all add: full_line_def)
  then have cells: "map (buf full_line) [0..<127] = replicate 127 97"
    by (simp add: map_replicate_const)
  have "[0..<128] = [0..<127] @ [127]"
    using upt_Suc_append [of 0 127] by simp
  then have "map (buf full_line) [0..<128] = replicate 127 97 @ [10]"
    by (simp add: cells) (simp add: full_line_def)
  moreover have "pending full_line = map (buf full_line) [unat (r full_line)..<unat (w full_line)]"
    by (rule pending_linear) (simp_all add: full_line_def)
  ultimately have pend: "pending full_line = replicate 127 97 @ 10 # []"
    by (simp add: full_line_def)
  have clean: "\<forall>x\<in>set (replicate 127 (97 :: 8 word)). x \<noteq> 4 \<and> x \<noteq> 10"
    by simp
  have "consoleread False 128 full_line
       = Return 128 (replicate 127 97 @ [10]) (full_line\<lparr>r := 128\<rparr>)"
    unfolding consoleread_def
    using read_loop_to_newline [OF pend clean, of 128 False 128 "[]"]
    by (simp add: full_line_def)
  then show ?thesis
    by (simp add: type_full_line)
      (simp add: full_line_def cursors_ok_def consoleintr_step_def default_input_def)
qed

section \<open>Formatted output\<close>

text \<open>With base 10 and base 16, the only ones \<^verbatim>\<open>cprintf\<close> uses, \<^verbatim>\<open>printint\<close> produces at
  most 11 characters: the 16 bytes of its buffer are enough.\<close>

lemma printint_digits_length:
  "2 \<le> base \<Longrightarrow> x < base ^ Suc k \<Longrightarrow> length (printint_digits x base) \<le> Suc k"
proof (induction k arbitrary: x)
  case 0
  then show ?case
    by (subst printint_digits.simps) simp
next
  case (Suc k)
  show ?case
  proof (cases "x div base = 0")
    case True
    with Suc.prems show ?thesis
      by (subst printint_digits.simps) simp
  next
    case False
    from Suc.prems have "x div base < base ^ Suc k"
      by (simp add: less_mult_imp_div_less mult.commute)
    with Suc.prems(1) have "length (printint_digits (x div base) base) \<le> Suc k"
      by (rule Suc.IH)
    with False Suc.prems(1) show ?thesis
      by (subst printint_digits.simps) simp
  qed
qed

lemma printint_fits:
  "length (printint xx 10 sign) \<le> 11" and "length (printint xx 16 sign) \<le> 9"
proof -
  have u: "unat x < 4294967296" for x :: "32 word"
    using unsigned_less [of x] by simp
  have d10: "length (printint_digits (unat x) 10) \<le> Suc 9" for x :: "32 word"
    by (rule printint_digits_length) (use u [of x] in simp_all)
  from d10 [of xx] d10 [of "- xx"] show "length (printint xx 10 sign) \<le> 11"
    by (auto simp add: printint_def Let_def)
  have d16: "length (printint_digits (unat x) 16) \<le> Suc 7" for x :: "32 word"
    by (rule printint_digits_length) (use u [of x] in simp_all)
  from d16 [of xx] d16 [of "- xx"] show "length (printint xx 16 sign) \<le> 9"
    by (auto simp add: printint_def Let_def)
qed

lemma scans_through_plain:
  "\<forall>b\<in>set pre. uint b \<noteq> 0 \<and> uint b \<noteq> PERCENT \<Longrightarrow> scans_through pre"
  by (induction pre) simp_all

lemma printint_examples:
  "printint 255 16 False = [102, 102]" and "printint (- 42) 10 True = [45, 52, 50]"
  by (simp_all add: printint_def printint_digits.simps digit_def)

lemma cprintf_scan_append:
  "scans_through pre \<Longrightarrow>
   cprintf_scan (pre @ post) argp str_at k =
     cprintf_scan pre argp str_at k @ cprintf_scan post argp str_at (k + args_used pre)"
proof (induction pre arbitrary: k rule: scans_through.induct)
  case 1
  then show ?case by simp
next
  case (2 b fmt)
  from "2.prems" have nz: "uint b \<noteq> 0"
    by (auto split: if_splits)
  show ?case
  proof (cases "uint b = PERCENT")
    case False
    with 2 nz show ?thesis
      by simp
  next
    case True
    with "2.prems" obtain b2 fmt' where fmt: "fmt = b2 # fmt'" and nz2: "uint b2 \<noteq> 0"
      and op: "scans_through fmt'"
      by (cases fmt) (auto split: if_splits)
    have ih: "cprintf_scan (fmt' @ post) argp str_at j =
        cprintf_scan fmt' argp str_at j @ cprintf_scan post argp str_at (j + args_used fmt')"
      for j
      using "2.IH"(2) [OF nz _ fmt nz2 op] True by simp
    show ?thesis
      using True nz nz2 by (simp add: fmt ih)
  qed
qed






text \<open>
  Claim C10. When the format ends right after a \<^verbatim>\<open>%\<close> that starts a directive,
  nothing is emitted for that \<^verbatim>\<open>%\<close>: the calls made are those for the format
  without it, for \<^verbatim>\<open>cprintf_scan\<close> and for \<^verbatim>\<open>cprintf\<close> as a whole.
\<close>

theorem trailing_percent_silent:
  assumes "scans_through pre"
  shows "cprintf_scan (pre @ [37]) argp str_at k = cprintf_scan pre argp str_at k
     \<and> cprintf (Some (pre @ [37])) argp str_at s = cprintf (Some pre) argp str_at s"
  by (simp add: cprintf_scan_append [OF assms] cprintf_def)


theorem trailing_percent_silent_witness:
  "scans_through [97]
   \<and> cprintf_scan ([97] @ [37]) (\<lambda>i. 0) (\<lambda>a. []) 0 = [97]
   \<and> cprintf (Some ([97] @ [37])) (\<lambda>i. 0) (\<lambda>a. []) blank_console
       = cprintf (Some [97]) (\<lambda>i. 0) (\<lambda>a. []) blank_console"
  using trailing_percent_silent [of "[97]" "\<lambda>i. 0" "\<lambda>a. []" 0 blank_console]
  by simp

end
